theory Spec2Isabelle
  imports Main "HOL-Library.Log_Nat"
begin

section \<open>Python values used by the converter\<close>

text \<open>
  The exceptions that the modelled code can raise: \<open>int\<close> and \<open>float\<close> on a string that is
  not a number (\<open>ValueError\<close>), float division by zero (\<open>ZeroDivisionError\<close>), a command
  line holding \<open>None\<close> (\<open>TypeError\<close>), a program that cannot be started (\<open>OSError\<close>)
  and bytes of a text-mode pipe that are not text in the locale's encoding
  (\<open>UnicodeDecodeError\<close>).
\<close>

datatype error = ValueError | ZeroDivisionError | TypeError | OSError | UnicodeDecodeError

subsection \<open>Double-precision floats\<close>

text \<open>
  A Python \<open>float\<close> is an IEEE 754 binary64 number. A finite double is represented by the
  rational number it denotes, and every arithmetic operation is the exact operation followed
  by rounding to the nearest number with a 53-bit significand, ties to even (\<open>fl\<close>). The
  exponent is not bounded: the magnitudes that occur here (times below \<open>10\<^sup>6\<close> seconds with
  two decimals, their quotients and one multiplication by 100) are far inside the normal
  range of binary64, where neither overflow nor gradual underflow happens; this is proved
  below for the values of a run.
\<close>

type_synonym double = rat

definition round_half_even :: "rat \<Rightarrow> int" where
  "round_half_even y =
     (let f = \<lfloor>y\<rfloor>; r = y - of_int f
      in if r < 1 / 2 then f else if 1 / 2 < r then f + 1 else if even f then f else f + 1)"

text \<open>\<open>ilog2 x\<close> is the binary exponent of a positive rational: \<open>2\<^sup>k \<le> x < 2\<^sup>k\<^sup>+\<^sup>1\<close>.\<close>

definition ilog2 :: "rat \<Rightarrow> int" where
  "ilog2 x =
     (let (p, q) = quotient_of x; n = bitlen p - bitlen q
      in if 2 powi n \<le> x then n else n - 1)"

definition fl :: "rat \<Rightarrow> double" where
  "fl x =
     (if x = 0 then 0
      else let a = \<bar>x\<bar>; e = ilog2 a - 52;
               m = round_half_even (a / 2 powi e)
           in sgn x * of_int m * 2 powi e)"

definition float_add :: "double \<Rightarrow> double \<Rightarrow> double" where
  "float_add a b = fl (a + b)"

definition float_mul :: "double \<Rightarrow> double \<Rightarrow> double" where
  "float_mul a b = fl (a * b)"

definition float_truediv :: "double \<Rightarrow> double \<Rightarrow> error + double" where
  "float_truediv a b = (if b = 0 then Inl ZeroDivisionError else Inr (fl (a / b)))"

text \<open>\<open>float(n)\<close> for an integer, and the implicit conversion in \<open>n + x\<close>.\<close>

definition float_of_int :: "int \<Rightarrow> double" where
  "float_of_int n = fl (of_int n)"

text \<open>\<open>int(x)\<close> on a float truncates towards zero.\<close>

definition int_of_float :: "double \<Rightarrow> int" where
  "int_of_float x = (if 0 \<le> x then \<lfloor>x\<rfloor> else \<lceil>x\<rceil>)"

subsection \<open>Numbers from strings\<close>

text \<open>
  Lines are strings over Isabelle's 8-bit characters and the class \<open>\d\<close> is the ten ASCII
  digits. \<open>py_int\<close> and \<open>py_float\<close> are Python's \<open>int(s)\<close> and \<open>float(s)\<close> on unsigned
  decimal strings, which is all that a group of the two regular expressions can hold; any
  other string is a \<open>ValueError\<close> here. \<open>float\<close> rounds the decimal value correctly.
\<close>

definition digit_val :: "char \<Rightarrow> nat option" where
  "digit_val c =
     (let n = (of_char c :: nat) in if 48 \<le> n \<and> n \<le> 57 then Some (n - 48) else None)"

definition isdigit :: "char \<Rightarrow> bool" where
  "isdigit c = (digit_val c \<noteq> None)"

fun digits_acc :: "nat \<Rightarrow> string \<Rightarrow> nat option" where
  "digits_acc a [] = Some a"
| "digits_acc a (c # cs) =
     (case digit_val c of None \<Rightarrow> None | Some d \<Rightarrow> digits_acc (10 * a + d) cs)"

definition py_int :: "string \<Rightarrow> error + int" where
  "py_int s =
     (if s = [] then Inl ValueError
      else case digits_acc 0 s of None \<Rightarrow> Inl ValueError | Some n \<Rightarrow> Inr (int n))"

definition py_float :: "string \<Rightarrow> error + double" where
  "py_float s =
     (let ip = takeWhile (\<lambda>c. c \<noteq> CHR ''.'') s;
          fp = drop 1 (dropWhile (\<lambda>c. c \<noteq> CHR ''.'') s)
      in if ip = [] \<and> fp = [] then Inl ValueError
         else case (digits_acc 0 ip, digits_acc 0 fp) of
                (Some a, Some b) \<Rightarrow> Inr (fl (of_nat a + of_nat b / 10 ^ length fp))
              | _ \<Rightarrow> Inl ValueError)"

section \<open>Progress parser\<close>

text \<open>
  Both regular expressions of \<open>ConverterThread.run\<close> are a literal followed by
  \<open>(\d{2}):(\d{2}):(\d{2}\.\d{2})\<close>. \<open>match_hms\<close> matches that tail at the start of a
  string and returns the three groups; \<open>re_search\<close> is \<open>re.search\<close>: the leftmost position
  of the line at which literal and tail match.
\<close>

type_synonym groups = "string \<times> string \<times> string"

definition match_hms :: "string \<Rightarrow> groups option" where
  "match_hms s =
     (if 11 \<le> length s
         \<and> isdigit (s ! 0) \<and> isdigit (s ! 1) \<and> s ! 2 = CHR '':''
         \<and> isdigit (s ! 3) \<and> isdigit (s ! 4) \<and> s ! 5 = CHR '':''
         \<and> isdigit (s ! 6) \<and> isdigit (s ! 7) \<and> s ! 8 = CHR ''.''
         \<and> isdigit (s ! 9) \<and> isdigit (s ! 10)
      then Some (take 2 s, take 2 (drop 3 s), take 5 (drop 6 s))
      else None)"

definition match_at :: "string \<Rightarrow> string \<Rightarrow> groups option" where
  "match_at lit s =
     (if take (length lit) s = lit then match_hms (drop (length lit) s) else None)"

fun re_search :: "string \<Rightarrow> string \<Rightarrow> groups option" where
  "re_search lit [] = match_at lit []"
| "re_search lit (c # cs) =
     (case match_at lit (c # cs) of Some g \<Rightarrow> Some g | None \<Rightarrow> re_search lit cs)"

definition duration_re :: string where
  "duration_re = ''Duration: ''"

definition time_re :: string where
  "time_re = ''out_time=''"

text \<open>
  \<open>hours = int(group 1)\<close>, \<open>minutes = int(group 2)\<close>, \<open>seconds = float(group 3)\<close> and
  \<open>(hours * 3600) + (minutes * 60) + seconds\<close>: the integer sum is converted to a float and
  added to \<open>seconds\<close> in floating point.
\<close>

definition to_seconds :: "groups \<Rightarrow> error + double" where
  "to_seconds g =
     (case g of (g1, g2, g3) \<Rightarrow>
        (case py_int g1 of Inl e \<Rightarrow> Inl e | Inr hours \<Rightarrow>
        (case py_int g2 of Inl e \<Rightarrow> Inl e | Inr minutes \<Rightarrow>
        (case py_float g3 of Inl e \<Rightarrow> Inl e | Inr seconds \<Rightarrow>
           Inr (float_add (float_of_int ((hours * 3600) + (minutes * 60))) seconds)))))"

section \<open>Job runner: \<open>ConverterThread.run\<close>\<close>

datatype event =
    progress_updated string int
  | status_updated string string
  | conversion_finished string string
  | printed string

text \<open>
  Both pipes are opened in text mode (\<open>universal_newlines=True\<close>), with the locale's
  encoding and strict error handling. Reading the next line of such a pipe gives the line,
  or raises \<open>UnicodeDecodeError\<close> when the bytes that arrived are not text in that
  encoding.
\<close>

datatype reading = Line string | DecodeFailure

text \<open>
  What the child process does, as far as \<open>run\<close> observes it: what each read of its
  standard error gives, what each read of its standard output gives, and its exit code.
  Both streams are finite: the process closes them and exits.
\<close>

record process =
  stderr :: "reading list"
  stdout :: "reading list"
  returncode :: int

record converter_thread =
  input_file :: string
  output_file :: string
  ffmpeg_path :: "string option"

text \<open>\<open>subprocess.Popen\<close>: the operating system starts the command or refuses to.\<close>

type_synonym popen = "string list \<Rightarrow> process option"

definition command :: "string \<Rightarrow> string \<Rightarrow> string \<Rightarrow> string list" where
  "command exe inp outp = [exe, ''-i'', inp, ''-progress'', ''pipe:1'', ''-nostats'', outp]"

text \<open>
  The loop over \<open>process.stderr\<close>. It returns the duration and what it has not read: the
  \<open>break\<close> leaves the rest of the stream in the pipe. A read that fails raises before the
  body of the loop runs.
\<close>

fun scan_duration :: "double option \<Rightarrow> reading list \<Rightarrow> error + (double option \<times> reading list)" where
  "scan_duration duration [] = Inr (duration, [])"
| "scan_duration duration (DecodeFailure # rest) = Inl UnicodeDecodeError"
| "scan_duration duration (Line line # rest) =
     (if duration = None then
        (case re_search duration_re line of
           Some g \<Rightarrow> (case to_seconds g of Inl e \<Rightarrow> Inl e | Inr d \<Rightarrow> Inr (Some d, rest))
         | None \<Rightarrow> scan_duration duration rest)
      else scan_duration duration rest)"

text \<open>
  The loop over \<open>process.stdout\<close>, entered with a known duration: the events it emits and
  the exception that ended it, if any.
\<close>

definition progress_of :: "double \<Rightarrow> double \<Rightarrow> error + int" where
  "progress_of current_time duration =
     (case float_truediv current_time duration of
        Inl e \<Rightarrow> Inl e
      | Inr q \<Rightarrow> Inr (min 99 (int_of_float (float_mul q 100))))"

fun progress_loop :: "string \<Rightarrow> double \<Rightarrow> reading list \<Rightarrow> event list \<times> error option" where
  "progress_loop inp duration [] = ([], None)"
| "progress_loop inp duration (DecodeFailure # rest) = ([], Some UnicodeDecodeError)"
| "progress_loop inp duration (Line line # rest) =
     (case re_search time_re line of
        None \<Rightarrow> progress_loop inp duration rest
      | Some g \<Rightarrow>
          (case to_seconds g of
             Inl e \<Rightarrow> ([], Some e)
           | Inr current_time \<Rightarrow>
               (case progress_of current_time duration of
                  Inl e \<Rightarrow> ([], Some e)
                | Inr progress \<Rightarrow>
                    (case progress_loop inp duration rest of
                       (evs, err) \<Rightarrow> (progress_updated inp progress # evs, err)))))"

text \<open>After \<open>process.wait()\<close>: the branch on the exit code.\<close>

definition on_exit :: "string \<Rightarrow> string \<Rightarrow> int \<Rightarrow> event list" where
  "on_exit inp outp rc =
     (if rc = 0
      then [progress_updated inp 100, status_updated inp ''Completed'',
            conversion_finished inp outp]
      else [status_updated inp ''Error'', printed (''Error converting '' @ inp)])"

text \<open>\<open>if duration:\<close> is false for \<open>None\<close> and for \<open>0.0\<close>.\<close>

fun truthy :: "double option \<Rightarrow> bool" where
  "truthy None = False"
| "truthy (Some d) = (d \<noteq> 0)"

text \<open>
  \<open>run\<close> returns the events emitted in order, and the exception that left it, if any.
\<close>

definition run :: "popen \<Rightarrow> converter_thread \<Rightarrow> event list \<times> error option" where
  "run os self =
     (let inp = input_file self; outp = output_file self;
          ev0 = [status_updated inp ''Starting conversion...'']
      in case ffmpeg_path self of
           None \<Rightarrow> (ev0, Some TypeError)
         | Some exe \<Rightarrow>
        (case os (command exe inp outp) of
           None \<Rightarrow> (ev0, Some OSError)
         | Some process \<Rightarrow>
        (case scan_duration None (stderr process) of
           Inl e \<Rightarrow> (ev0, Some e)
         | Inr (duration, unread) \<Rightarrow>
             (if truthy duration then
                (case progress_loop inp (the duration) (stdout process) of
                   (evs, Some e) \<Rightarrow> (ev0 @ [status_updated inp ''Converting...''] @ evs, Some e)
                 | (evs, None) \<Rightarrow>
                     (ev0 @ [status_updated inp ''Converting...''] @ evs
                        @ on_exit inp outp (returncode process), None))
              else (ev0 @ on_exit inp outp (returncode process), None)))))"

section \<open>Job supervisor: \<open>MainWindow\<close>\<close>

subsection \<open>String operations\<close>

text \<open>\<open>s.rsplit('.', 1)[0]\<close>: the part before the last dot, or all of \<open>s\<close> without a dot.\<close>

definition rsplit_head :: "string \<Rightarrow> string" where
  "rsplit_head s =
     (if CHR ''.'' \<in> set s
      then rev (drop 1 (dropWhile (\<lambda>c. c \<noteq> CHR ''.'') (rev s)))
      else s)"

text \<open>\<open>s.lstrip('.')\<close>.\<close>

definition lstrip_dots :: "string \<Rightarrow> string" where
  "lstrip_dots s = dropWhile (\<lambda>c. c = CHR ''.'') s"

text \<open>\<open>s.endswith(t)\<close>.\<close>

definition endswith :: "string \<Rightarrow> string \<Rightarrow> bool" where
  "endswith s t = (length t \<le> length s \<and> drop (length s - length t) s = t)"

text \<open>\<open>os.path.basename\<close> on a path with \<open>/\<close> as separator.\<close>

definition basename :: "string \<Rightarrow> string" where
  "basename s = rev (takeWhile (\<lambda>c. c \<noteq> CHR ''/'') (rev s))"

text \<open>The decimal text of a counter, as an f-string writes it.\<close>

definition digit_char :: "nat \<Rightarrow> char" where
  "digit_char d = char_of (48 + d)"

fun str_nat :: "nat \<Rightarrow> string" where
  "str_nat n = (if n < 10 then [digit_char n] else str_nat (n div 10) @ [digit_char (n mod 10)])"

declare str_nat.simps [simp del]

subsection \<open>Widgets and the window\<close>

record conversion_progress =
  filename_label :: string
  progress_bar :: int
  status_label :: string

definition ConversionProgress :: "string \<Rightarrow> conversion_progress" where
  "ConversionProgress filename =
     \<lparr>filename_label = basename filename, progress_bar = 0, status_label = ''Waiting...''\<rparr>"

text \<open>A combo box: its items and the current index, \<open>-1\<close> when there is none.\<close>

record combo_box =
  items :: "string list"
  current_index :: int

definition currentText :: "combo_box \<Rightarrow> string" where
  "currentText c =
     (if 0 \<le> current_index c \<and> current_index c < int (length (items c))
      then items c ! nat (current_index c) else [])"

definition clear :: "combo_box \<Rightarrow> combo_box" where
  "clear c = \<lparr>items = [], current_index = - 1\<rparr>"

datatype dialog =
    warning string string
  | critical string string
  | information string string

text \<open>
  The state of the window that the conversion code reads and writes. \<open>started\<close> lists the
  threads on which \<open>start()\<close> was called, \<open>dialogs\<close> the message boxes shown, \<open>console\<close>
  the lines printed and \<open>log_file\<close> the lines written to the day's log, each in order.
\<close>

record main_window =
  list_widget :: "string list"
  input_combo_box :: combo_box
  output_combo_box :: combo_box
  progress_frames :: "string \<rightharpoonup> conversion_progress"
  converter_threads :: "string \<rightharpoonup> converter_thread"
  window_ffmpeg_path :: "string option"
  log_file :: "string list"
  started :: "converter_thread list"
  dialogs :: "dialog list"
  console :: "string list"

text \<open>The paths that exist on disk; \<open>os.path.exists\<close> is membership.\<close>

type_synonym filesystem = "string list"

definition path_exists :: "filesystem \<Rightarrow> string \<Rightarrow> bool" where
  "path_exists fs p = (p \<in> set fs)"

subsection \<open>\<open>convert_file\<close>\<close>

text \<open>
  The name tried at a given counter:
  \<open>f"{base_output_file.rsplit('.', 1)[0]}_{counter}.{output_ext.lstrip('.')}"\<close>.
\<close>

definition candidate :: "string \<Rightarrow> string \<Rightarrow> nat \<Rightarrow> string" where
  "candidate base_output_file output_ext counter =
     rsplit_head base_output_file @ ''_'' @ str_nat counter @ ''.'' @ lstrip_dots output_ext"

text \<open>
  The counter's text determines the counter, so only finitely many candidates are on disk
  and the search below ends.
\<close>

lemma digit_val_digit_char: "d < 10 \<Longrightarrow> digit_val (digit_char d) = Some d"
  unfolding digit_val_def digit_char_def Let_def by (simp add: of_char_of)

lemma digits_acc_snoc:
  "digits_acc a (xs @ [c]) =
     (case digits_acc a xs of None \<Rightarrow> None
      | Some v \<Rightarrow> (case digit_val c of None \<Rightarrow> None | Some d \<Rightarrow> Some (10 * v + d)))"
  by (induction xs arbitrary: a) (auto split: option.splits)

lemma digits_acc_str_nat: "digits_acc 0 (str_nat n) = Some n"
proof (induction n rule: str_nat.induct)
  case (1 n)
  show ?case
  proof (cases "n < 10")
    case True
    then show ?thesis by (subst str_nat.simps) (simp add: digit_val_digit_char)
  next
    case False
    then have "digits_acc 0 (str_nat (n div 10)) = Some (n div 10)" using 1 by simp
    then show ?thesis using False
      by (subst str_nat.simps) (simp add: digits_acc_snoc digit_val_digit_char)
  qed
qed

lemma str_nat_inj: "str_nat m = str_nat n \<Longrightarrow> m = n"
  by (metis digits_acc_str_nat option.inject)

lemma candidate_inj: "candidate b e m = candidate b e n \<Longrightarrow> m = n"
  unfolding candidate_def by (simp add: str_nat_inj)

lemma finite_taken: "finite {k. candidate b e k \<in> set fs}"
proof -
  have "inj (candidate b e)" by (rule injI) (rule candidate_inj)
  then have "finite (candidate b e -` set fs)" by (intro finite_vimageI) auto
  then show ?thesis by (simp add: vimage_def)
qed

definition taken :: "filesystem \<Rightarrow> string \<Rightarrow> string \<Rightarrow> nat \<Rightarrow> nat" where
  "taken fs b e counter = card {k. counter \<le> k \<and> candidate b e k \<in> set fs}"

lemma taken_step:
  "taken fs b e (Suc counter) + (if path_exists fs (candidate b e counter) then 1 else 0)
     = taken fs b e counter"
proof -
  let ?A = "{k. Suc counter \<le> k \<and> candidate b e k \<in> set fs}"
  have fin: "finite ?A" using finite_taken[of b e fs] by (rule rev_finite_subset) auto
  show ?thesis
  proof (cases "candidate b e counter \<in> set fs")
    case True
    then have "{k. counter \<le> k \<and> candidate b e k \<in> set fs} = insert counter ?A"
      by (auto simp: le_Suc_eq)
    then show ?thesis using True fin by (simp add: taken_def path_exists_def)
  next
    case False
    then have "{k. counter \<le> k \<and> candidate b e k \<in> set fs} = ?A"
      by (auto simp: le_Suc_eq) (metis Suc_leI le_neq_implies_less)
    then show ?thesis using False by (simp add: taken_def path_exists_def)
  qed
qed

text \<open>
  The \<open>while os.path.exists(output_file)\<close> loop, entered with the base name and counter 1.
\<close>

function find_free :: "filesystem \<Rightarrow> string \<Rightarrow> string \<Rightarrow> string \<Rightarrow> nat \<Rightarrow> string" where
  "find_free fs base_output_file output_ext outp counter =
     (if path_exists fs outp
      then find_free fs base_output_file output_ext
             (candidate base_output_file output_ext counter) (counter + 1)
      else outp)"
  by pat_completeness auto
termination
proof (relation "measure (\<lambda>(fs, b, e, out, counter).
                   taken fs b e counter + (if path_exists fs out then 1 else 0))")
  show "wf (measure (\<lambda>(fs, b, e, out, counter).
                   taken fs b e counter + (if path_exists fs out then 1 else 0)))" by simp
next
  fix fs b e out and counter :: nat
  assume "path_exists fs out"
  then show "((fs, b, e, candidate b e counter, counter + 1), (fs, b, e, out, counter))
      \<in> measure (\<lambda>(fs, b, e, out, counter).
                   taken fs b e counter + (if path_exists fs out then 1 else 0))"
    using taken_step[of fs b e counter] by simp
qed

declare find_free.simps [simp del]


text \<open>
  \<open>convert_file\<close>: the destination, the progress frame and the thread, stored under the
  source's name, and the thread started.
\<close>

definition destination :: "filesystem \<Rightarrow> string \<Rightarrow> string \<Rightarrow> string" where
  "destination fs inp output_ext =
     (let base_output_file = rsplit_head inp @ output_ext
      in find_free fs base_output_file output_ext base_output_file 1)"

definition convert_file :: "filesystem \<Rightarrow> main_window \<Rightarrow> string \<Rightarrow> string \<Rightarrow> main_window" where
  "convert_file fs self inp output_ext =
     (let outp = destination fs inp output_ext;
          progress_frame = ConversionProgress inp;
          thread = \<lparr>input_file = inp, output_file = outp,
                    ffmpeg_path = window_ffmpeg_path self\<rparr>
      in self\<lparr>progress_frames := (progress_frames self)(inp \<mapsto> progress_frame),
              converter_threads := (converter_threads self)(inp \<mapsto> thread),
              started := started self @ [thread]\<rparr>)"

subsection \<open>\<open>handle_convert\<close>\<close>

text \<open>\<open>list_widget.takeItem(index)\<close>.\<close>

definition takeItem :: "nat \<Rightarrow> main_window \<Rightarrow> main_window" where
  "takeItem index self =
     self\<lparr>list_widget := take index (list_widget self) @ drop (Suc index) (list_widget self)\<rparr>"

definition show_dialog :: "dialog \<Rightarrow> main_window \<Rightarrow> main_window" where
  "show_dialog d self = self\<lparr>dialogs := dialogs self @ [d]\<rparr>"

text \<open>
  The queued files that end with the input extension are converted from the last to the
  first and taken off the queue. The disk is the same for all of them: the threads have
  only been started.
\<close>

definition handle_convert :: "filesystem \<Rightarrow> main_window \<Rightarrow> main_window" where
  "handle_convert fs self =
     (let output_ext = currentText (output_combo_box self);
          input_ext = currentText (input_combo_box self)
      in if output_ext = [] then
           show_dialog (warning ''Output Format'' ''Please select an output format!'') self
         else if input_ext = [] then
           show_dialog (warning ''Input Format'' ''Please select an input format!'') self
         else if window_ffmpeg_path self = None then
           show_dialog
             (critical ''FFmpeg Error'' ''FFmpeg is not available, conversion failed.'') self
         else
           (let items_to_remove =
                  filter (\<lambda>(i, text). endswith text input_ext)
                    (zip [0 ..< length (list_widget self)] (list_widget self));
                self1 = fold (\<lambda>(index, inp) s. takeItem index (convert_file fs s inp output_ext))
                          (rev items_to_remove) self
            in if list_widget self1 = []
               then self1\<lparr>input_combo_box := clear (input_combo_box self1)\<rparr>
               else self1))"

subsection \<open>Slots\<close>

definition update_progress :: "main_window \<Rightarrow> string \<Rightarrow> int \<Rightarrow> main_window" where
  "update_progress self filename progress =
     (case progress_frames self filename of
        None \<Rightarrow> self
      | Some frame \<Rightarrow>
          self\<lparr>progress_frames :=
                 (progress_frames self)(filename \<mapsto> frame\<lparr>progress_bar := progress\<rparr>)\<rparr>)"

definition update_status :: "main_window \<Rightarrow> string \<Rightarrow> string \<Rightarrow> main_window" where
  "update_status self filename status =
     (case progress_frames self filename of
        None \<Rightarrow> self
      | Some frame \<Rightarrow>
          self\<lparr>progress_frames :=
                 (progress_frames self)(filename \<mapsto> frame\<lparr>status_label := status\<rparr>)\<rparr>)"


definition on_thread_finished :: "main_window \<Rightarrow> string \<Rightarrow> main_window" where
  "on_thread_finished self inp =
     self\<lparr>converter_threads := (converter_threads self)(inp := None),
           progress_frames := (progress_frames self)(inp := None)\<rparr>"



section \<open>Notions for stating the properties\<close>

text \<open>
  A time as the tool prints it, \<open>HH:MM:SS.ff\<close>, from its four two-digit fields, and the
  number that a string of digits writes.
\<close>

definition two_digits :: "string \<Rightarrow> bool" where
  "two_digits s = (length s = 2 \<and> list_all isdigit s)"

definition number :: "string \<Rightarrow> nat" where
  "number s = foldl (\<lambda>a c. 10 * a + (of_char c - 48)) 0 s"

definition time_text :: "string \<Rightarrow> string \<Rightarrow> string \<Rightarrow> string \<Rightarrow> string" where
  "time_text hh mm ss ff = hh @ '':'' @ mm @ '':'' @ ss @ ''.'' @ ff"

text \<open>The line holds the literal followed by a time, somewhere.\<close>

definition has_time :: "string \<Rightarrow> string \<Rightarrow> bool" where
  "has_time lit line =
     (\<exists>pre hh mm ss ff post.
        line = pre @ lit @ time_text hh mm ss ff @ post
        \<and> two_digits hh \<and> two_digits mm \<and> two_digits ss \<and> two_digits ff)"

text \<open>
  The lines that a loop over a stream gets before the first read that fails, and whether
  every read of the stream succeeds.
\<close>

fun texts :: "reading list \<Rightarrow> string list" where
  "texts [] = []"
| "texts (Line l # rs) = l # texts rs"
| "texts (DecodeFailure # rs) = []"

fun readable :: "reading list \<Rightarrow> bool" where
  "readable [] = True"
| "readable (Line l # rs) = readable rs"
| "readable (DecodeFailure # rs) = False"

text \<open>
  The \<open>current_time\<close> values that the lines of a progress stream give, in order, and the
  values carried by the progress events of a trace.
\<close>

fun times :: "string list \<Rightarrow> double list" where
  "times [] = []"
| "times (line # rest) =
     (case re_search time_re line of
        None \<Rightarrow> times rest
      | Some g \<Rightarrow> (case to_seconds g of Inl e \<Rightarrow> times rest | Inr t \<Rightarrow> t # times rest))"

fun progress_values :: "event list \<Rightarrow> int list" where
  "progress_values [] = []"
| "progress_values (progress_updated f v # evs) = v # progress_values evs"
| "progress_values (e # evs) = progress_values evs"

fun is_finished :: "event \<Rightarrow> bool" where
  "is_finished (conversion_finished i outp) = True"
| "is_finished e = False"

text \<open>
  The events that \<open>run\<close> can emit before \<open>process.wait()\<close>: the two statuses of a job
  under way and a progress value from 0 to 99.
\<close>

fun before_exit :: "event \<Rightarrow> bool" where
  "before_exit (progress_updated f v) = (0 \<le> v \<and> v \<le> 99)"
| "before_exit (status_updated f s) = (s = ''Starting conversion...'' \<or> s = ''Converting...'')"
| "before_exit e = False"

text \<open>
  The percentage that \<open>progress_of\<close> returns for a non-zero duration:
  \<open>min(99, int((current_time / duration) * 100))\<close> in double arithmetic.
\<close>

definition percent :: "double \<Rightarrow> double \<Rightarrow> int" where
  "percent duration t = min 99 (int_of_float (float_mul (fl (t / duration)) 100))"

subsection \<open>Sample jobs and windows\<close>

text \<open>
  One thread and an operating system that starts exactly its command, with six
  processes: one reports a duration of two minutes (and a second duration line after it)
  and four progress times and exits with 0; one reports no duration and exits with 1; one
  reports a duration of zero. The other three write bytes to their standard error that
  are not text in the locale's encoding: one before its duration line, exiting with 0; one
  at once, exiting with 1; one after a first line, exiting with 1.
\<close>

definition clip_thread :: converter_thread where
  "clip_thread = \<lparr>input_file = ''clip.mp4'', output_file = ''clip.mkv'', ffmpeg_path = Some ''ffmpeg''\<rparr>"

definition only_clip :: "process \<Rightarrow> popen" where
  "only_clip p cmd = (if cmd = command ''ffmpeg'' ''clip.mp4'' ''clip.mkv'' then Some p else None)"

definition two_minutes :: process where
  "two_minutes =
     \<lparr>stderr = map Line
                [''Input #0, mov,mp4,m4a,3gp,3g2,mj2, from clip.mp4:'',
                 ''  Duration: 00:02:00.00, start: 0.000000, bitrate: 128 kb/s'',
                 ''  Duration: 00:09:00.00, start: 0.000000, bitrate: 128 kb/s''],
      stdout = map Line
                [''frame=1'', ''out_time=00:00:00.000000'', ''progress=continue'',
                 ''out_time=00:01:00.000000'', ''out_time=00:01:59.000000'',
                 ''out_time=00:02:00.000000'', ''progress=end''],
      returncode = 0\<rparr>"


definition zero_length :: process where
  "zero_length =
     \<lparr>stderr = [Line ''  Duration: 00:00:00.00, start: 0.000000, bitrate: N/A''],
      stdout = [Line ''out_time=00:00:00.000000''],
      returncode = 0\<rparr>"




text \<open>
  A window with nothing queued, and one with files queued, \<open>.mp4\<close> selected as input
  extension and \<open>.mkv\<close> as output extension.
\<close>

definition idle_window :: main_window where
  "idle_window =
     \<lparr>list_widget = [],
      input_combo_box = \<lparr>items = [], current_index = - 1\<rparr>,
      output_combo_box = \<lparr>items = [], current_index = - 1\<rparr>,
      progress_frames = Map.empty,
      converter_threads = Map.empty,
      window_ffmpeg_path = Some ''ffmpeg'',
      log_file = [],
      started = [],
      dialogs = [],
      console = []\<rparr>"

definition queued :: "string list \<Rightarrow> main_window" where
  "queued files =
     idle_window\<lparr>list_widget := files,
                  input_combo_box := \<lparr>items = [''.mp4''], current_index = 0\<rparr>,
                  output_combo_box := \<lparr>items = [''.mkv'', ''.avi''], current_index = 0\<rparr>\<rparr>"

section \<open>Rounding: order and accuracy\<close>

lemma rhe_bounds: "\<bar>of_int (round_half_even y) - y\<bar> \<le> 1 / 2"
  unfolding round_half_even_def Let_def
  by (auto simp: abs_if) linarith+

lemma rhe_of_int [simp]: "round_half_even (of_int n) = n"
  unfolding round_half_even_def Let_def by simp

lemma rhe_mono: "y \<le> z \<Longrightarrow> round_half_even y \<le> round_half_even z"
proof -
  assume yz: "y \<le> z"
  have fy: "\<lfloor>y\<rfloor> \<le> \<lfloor>z\<rfloor>" using yz by (rule floor_mono)
  show ?thesis
  proof (cases "\<lfloor>y\<rfloor> = \<lfloor>z\<rfloor>")
    case True
    then show ?thesis using yz unfolding round_half_even_def Let_def by auto
  next
    case False
    then have "\<lfloor>y\<rfloor> + 1 \<le> \<lfloor>z\<rfloor>" using fy by linarith
    moreover have "round_half_even y \<le> \<lfloor>y\<rfloor> + 1" unfolding round_half_even_def Let_def by auto
    moreover have "\<lfloor>z\<rfloor> \<le> round_half_even z" unfolding round_half_even_def Let_def by auto
    ultimately show ?thesis by linarith
  qed
qed

lemma ilog2_bounds:
  assumes "0 < x"
  shows "2 powi (ilog2 x) \<le> x" and "x < 2 powi (ilog2 x + 1)"
proof -
  obtain p q where pq: "quotient_of x = (p, q)" by (cases "quotient_of x")
  have q: "0 < q" using quotient_of_denom_pos[OF pq] .
  have x: "x = of_int p / of_int q" using quotient_of_div[OF pq] .
  have p: "0 < p" using assms q x by (simp add: zero_less_divide_iff)
  define n where "n = bitlen p - bitlen q"
  have bp: "2 ^ nat (bitlen p - 1) \<le> p" "p < 2 ^ nat (bitlen p)" using bitlen_bounds[OF p] by auto
  have bq: "2 ^ nat (bitlen q - 1) \<le> q" "q < 2 ^ nat (bitlen q)" using bitlen_bounds[OF q] by auto
  have lp: "1 \<le> bitlen p" using p bitlen_eq_zero_iff[of p] bitlen_nonneg[of p] by linarith
  have lq: "1 \<le> bitlen q" using q bitlen_eq_zero_iff[of q] bitlen_nonneg[of q] by linarith
  have P1: "(2::rat) powi (bitlen p - 1) \<le> of_int p"
  proof -
    have "(of_int (2 ^ nat (bitlen p - 1)) :: rat) \<le> of_int p" using bp(1) by (simp only: of_int_le_iff)
    then show ?thesis using lp by (simp add: power_int_def)
  qed
  have P2: "of_int p < (2::rat) powi (bitlen p)"
  proof -
    have "(of_int p :: rat) < of_int (2 ^ nat (bitlen p))" using bp(2) by (simp only: of_int_less_iff)
    then show ?thesis using lp by (simp add: power_int_def)
  qed
  have Q1: "(2::rat) powi (bitlen q - 1) \<le> of_int q"
  proof -
    have "(of_int (2 ^ nat (bitlen q - 1)) :: rat) \<le> of_int q" using bq(1) by (simp only: of_int_le_iff)
    then show ?thesis using lq by (simp add: power_int_def)
  qed
  have Q2: "of_int q < (2::rat) powi (bitlen q)"
  proof -
    have "(of_int q :: rat) < of_int (2 ^ nat (bitlen q))" using bq(2) by (simp only: of_int_less_iff)
    then show ?thesis using lq by (simp add: power_int_def)
  qed
  have qpos: "(0::rat) < of_int q" using q by simp
  have lo: "(2::rat) powi (n - 1) < x"
  proof -
    have "(2::rat) powi (n - 1) * of_int q < 2 powi (n - 1) * 2 powi (bitlen q)"
      using Q2 by (simp add: mult_less_cancel_left_pos)
    also have "\<dots> = 2 powi (bitlen p - 1)"
      by (simp add: n_def power_int_add[symmetric])
    also have "\<dots> \<le> of_int p" by (rule P1)
    finally show ?thesis using qpos by (simp add: x pos_less_divide_eq)
  qed
  have hi: "x < (2::rat) powi (n + 1)"
  proof -
    have "of_int p < (2::rat) powi (bitlen p)" by (rule P2)
    also have "\<dots> = 2 powi (n + 1) * 2 powi (bitlen q - 1)"
      by (simp add: n_def power_int_add[symmetric])
    also have "\<dots> \<le> 2 powi (n + 1) * of_int q"
      using Q1 by (simp add: mult_le_cancel_left_pos)
    finally show ?thesis using qpos by (simp add: x pos_divide_less_eq)
  qed
  have il: "ilog2 x = (if 2 powi n \<le> x then n else n - 1)"
    unfolding ilog2_def pq n_def by simp
  show "2 powi (ilog2 x) \<le> x" using lo il by auto
  show "x < 2 powi (ilog2 x + 1)" using hi il by auto
qed

lemma fl_pos_eq:
  "0 < x \<Longrightarrow> fl x = of_int (round_half_even (x / 2 powi (ilog2 x - 52))) * 2 powi (ilog2 x - 52)"
  unfolding fl_def Let_def by simp

lemma fl_neg: "fl (- x) = - fl x"
  unfolding fl_def Let_def by simp

lemma fl_zero [simp]: "fl 0 = 0"
  unfolding fl_def by simp

lemma pow2_pos [simp]: "(0::rat) < 2 powi e"
  by (simp add: zero_less_power_int)

lemma pow2_not_le [simp]: "\<not> (2::rat) powi e \<le> 0"
  using pow2_pos[of e] by (simp only: not_le)

lemma pow2_not_less [simp]: "\<not> (2::rat) powi e < 0"
  using pow2_pos[of e] by (simp only: not_less less_imp_le)

lemma pow2_less_exp: "(2::rat) powi a < 2 powi b \<Longrightarrow> a < b"
proof (rule ccontr)
  assume lt: "(2::rat) powi a < 2 powi b" and "\<not> a < b"
  then have "b \<le> a" by simp
  then have "(2::rat) powi b \<le> 2 powi a" by (intro power_int_increasing) auto
  then show False using lt by linarith
qed

lemma scaled_bounds:
  assumes "0 < x"
  shows "2 ^ 52 \<le> x / 2 powi (ilog2 x - 52)" and "x / 2 powi (ilog2 x - 52) < 2 ^ 53"
proof -
  have e: "(2::rat) powi (ilog2 x) = 2 ^ 52 * 2 powi (ilog2 x - 52)"
    using power_int_add[of "2::rat" 52 "ilog2 x - 52"] by simp
  have e1: "(2::rat) powi (ilog2 x + 1) = 2 ^ 53 * 2 powi (ilog2 x - 52)"
    using power_int_add[of "2::rat" 53 "ilog2 x - 52"] by (simp add: add.commute)
  show "2 ^ 52 \<le> x / 2 powi (ilog2 x - 52)"
    using ilog2_bounds(1)[OF assms] unfolding e by (simp add: pos_le_divide_eq)
  show "x / 2 powi (ilog2 x - 52) < 2 ^ 53"
    using ilog2_bounds(2)[OF assms] unfolding e1 by (simp add: pos_divide_less_eq)
qed

lemma rhe_ge_int: "of_int n \<le> y \<Longrightarrow> n \<le> round_half_even y"
  using rhe_mono[of "of_int n" y] by simp

lemma rhe_le_int: "y \<le> of_int n \<Longrightarrow> round_half_even y \<le> n"
  using rhe_mono[of y "of_int n"] by simp

lemma fl_binade:
  assumes "0 < x"
  shows "2 powi (ilog2 x) \<le> fl x" and "fl x \<le> 2 powi (ilog2 x + 1)"
proof -
  let ?e = "ilog2 x - 52"
  let ?m = "round_half_even (x / 2 powi ?e)"
  have e: "(2::rat) powi (ilog2 x) = 2 ^ 52 * 2 powi ?e"
    using power_int_add[of "2::rat" 52 ?e] by simp
  have e1: "(2::rat) powi (ilog2 x + 1) = 2 ^ 53 * 2 powi ?e"
    using power_int_add[of "2::rat" 53 ?e] by (simp add: add.commute)
  have "(2::int) ^ 52 \<le> ?m" using scaled_bounds(1)[OF assms] by (intro rhe_ge_int) simp
  then have m1: "(2::rat) ^ 52 \<le> of_int ?m" by (metis of_int_le_iff of_int_numeral of_int_power)
  have "?m \<le> (2::int) ^ 53" using scaled_bounds(2)[OF assms] by (intro rhe_le_int) simp
  then have m2: "of_int ?m \<le> (2::rat) ^ 53" by (metis of_int_le_iff of_int_numeral of_int_power)
  show "2 powi (ilog2 x) \<le> fl x"
    unfolding fl_pos_eq[OF assms] e using m1 by (simp add: mult_le_cancel_right)
  show "fl x \<le> 2 powi (ilog2 x + 1)"
    unfolding fl_pos_eq[OF assms] e1 using m2 by (simp add: mult_le_cancel_right)
qed

lemma fl_pos: "0 < x \<Longrightarrow> 0 < fl x"
  using fl_binade(1)[of x] pow2_pos[of "ilog2 x"] by (meson less_le_trans)

lemma fl_nonneg: "0 \<le> x \<Longrightarrow> 0 \<le> fl x"
  using fl_pos[of x] by (cases "x = 0") (auto simp: less_le)

lemma ilog2_mono:
  assumes "0 < x" "x \<le> y"
  shows "ilog2 x \<le> ilog2 y"
proof (rule ccontr)
  assume "\<not> ilog2 x \<le> ilog2 y"
  then have "ilog2 y + 1 \<le> ilog2 x" by simp
  then have "(2::rat) powi (ilog2 y + 1) \<le> 2 powi (ilog2 x)"
    by (intro power_int_increasing) auto
  moreover have "y < 2 powi (ilog2 y + 1)" using assms by (intro ilog2_bounds(2)) simp
  moreover have "2 powi (ilog2 x) \<le> x" using assms by (intro ilog2_bounds(1))
  ultimately show False using assms by linarith
qed

lemma fl_mono_pos:
  assumes "0 < x" "x \<le> y"
  shows "fl x \<le> fl y"
proof -
  have y: "0 < y" using assms by simp
  have le: "ilog2 x \<le> ilog2 y" using assms by (rule ilog2_mono)
  show ?thesis
  proof (cases "ilog2 x = ilog2 y")
    case True
    have "x / 2 powi (ilog2 y - 52) \<le> y / 2 powi (ilog2 y - 52)"
      using assms by (simp add: divide_le_cancel)
    then have "round_half_even (x / 2 powi (ilog2 y - 52)) \<le> round_half_even (y / 2 powi (ilog2 y - 52))"
      by (rule rhe_mono)
    then show ?thesis
      unfolding fl_pos_eq[OF assms(1)] fl_pos_eq[OF y] True
      by (simp add: mult_le_cancel_right)
  next
    case False
    then have "ilog2 x + 1 \<le> ilog2 y" using le by simp
    then have "(2::rat) powi (ilog2 x + 1) \<le> 2 powi (ilog2 y)"
      by (intro power_int_increasing) auto
    then show ?thesis
      using fl_binade(2)[OF assms(1)] fl_binade(1)[OF y] by linarith
  qed
qed

lemma fl_mono: "x \<le> y \<Longrightarrow> fl x \<le> fl y"
proof -
  assume xy: "x \<le> y"
  consider "0 < x" | "x = 0" | "x < 0" "0 \<le> y" | "x < 0" "y < 0" by linarith
  then show ?thesis
  proof cases
    case 1 then show ?thesis using xy by (rule fl_mono_pos)
  next
    case 2 then show ?thesis using xy fl_nonneg[of y] by simp
  next
    case 3
    have "0 < fl (- x)" using 3 by (intro fl_pos) simp
    then have "fl x < 0" by (simp add: fl_neg)
    then show ?thesis using fl_nonneg[OF 3(2)] by linarith
  next
    case 4
    have "fl (- y) \<le> fl (- x)" using 4 xy by (intro fl_mono_pos) auto
    then show ?thesis by (simp add: fl_neg)
  qed
qed

lemma fl_error:
  assumes "0 < x"
  shows "\<bar>fl x - x\<bar> \<le> 2 powi (ilog2 x - 53)"
proof -
  let ?e = "ilog2 x - 52"
  let ?y = "x / 2 powi ?e"
  have xe: "x = ?y * 2 powi ?e" by simp
  have "\<bar>fl x - x\<bar> = \<bar>of_int (round_half_even ?y) * 2 powi ?e - ?y * 2 powi ?e\<bar>"
    unfolding fl_pos_eq[OF assms] by simp
  also have "\<dots> = \<bar>of_int (round_half_even ?y) - ?y\<bar> * 2 powi ?e"
    by (simp only: left_diff_distrib[symmetric] abs_mult) simp
  also have "\<dots> \<le> (1 / 2) * 2 powi ?e"
    using rhe_bounds[of ?y] by (intro mult_right_mono) auto
  also have "\<dots> = 2 powi (ilog2 x - 53)"
    using power_int_add[of "2::rat" "-1" ?e] by (simp add: power_int_minus)
  finally show ?thesis .
qed

lemma fl_representable:
  assumes "\<bar>m\<bar> < 2 ^ 53"
  shows "fl (of_int m * 2 powi e) = of_int m * 2 powi e"
proof -
  have pos: "fl (of_int m * 2 powi e) = of_int m * 2 powi e" if m: "0 < m" "m < 2 ^ 53" for m :: int
  proof -
    let ?x = "of_int m * (2::rat) powi e"
    have x: "0 < ?x" using m by simp
    have "2 powi (ilog2 ?x) \<le> ?x" using x by (rule ilog2_bounds(1))
    also have "?x < 2 ^ 53 * 2 powi e"
    proof -
      have "(of_int m :: rat) < of_int (2 ^ 53)" using m(2) by (simp only: of_int_less_iff)
      then show ?thesis by (simp add: mult_less_cancel_right)
    qed
    also have "\<dots> = 2 powi (53 + e)" using power_int_add[of "2::rat" 53 e] by simp
    finally have "ilog2 ?x < 53 + e"
      by (rule pow2_less_exp)
    then have k: "0 \<le> e - (ilog2 ?x - 52)" by simp
    define d where "d = nat (e - (ilog2 ?x - 52))"
    have "?x / 2 powi (ilog2 ?x - 52) = of_int m * 2 powi (e - (ilog2 ?x - 52))"
      by (simp add: power_int_diff)
    also have "\<dots> = of_int (m * 2 ^ d)" using k by (simp add: d_def power_int_def)
    finally have "round_half_even (?x / 2 powi (ilog2 ?x - 52)) = m * 2 ^ d" by (simp only: rhe_of_int)
    then have "fl ?x = of_int (m * 2 ^ d) * 2 powi (ilog2 ?x - 52)"
      unfolding fl_pos_eq[OF x] by simp
    also have "\<dots> = of_int m * (2 powi (e - (ilog2 ?x - 52)) * 2 powi (ilog2 ?x - 52))"
      using k by (simp add: d_def power_int_def)
    also have "\<dots> = ?x" by (simp add: power_int_add[symmetric])
    finally show ?thesis .
  qed
  consider "0 < m" | "m = 0" | "m < 0" by linarith
  then show ?thesis
  proof cases
    case 1 then show ?thesis using pos[of m] assms by simp
  next
    case 2 then show ?thesis by simp
  next
    case 3
    then have "fl (of_int (- m) * 2 powi e) = of_int (- m) * 2 powi e" using pos[of "- m"] assms by simp
    then show ?thesis using fl_neg[of "of_int m * 2 powi e"] by simp
  qed
qed

lemma fl_of_int: "\<bar>n\<bar> < 2 ^ 53 \<Longrightarrow> fl (of_int n) = of_int n"
  using fl_representable[of n 0] by simp

section \<open>The parser finds the leftmost time and reads it without error\<close>

lemma isdigit_val: "isdigit c \<Longrightarrow> digit_val c = Some (of_char c - 48)"
  unfolding isdigit_def digit_val_def Let_def by (auto split: if_splits)

lemma isdigit_not_dot: "isdigit c \<Longrightarrow> c \<noteq> CHR ''.''"
  unfolding isdigit_def digit_val_def Let_def by auto

lemma two_digitsE:
  assumes "two_digits s"
  obtains a b where "s = [a, b]" "isdigit a" "isdigit b"
proof -
  from assms have l: "length s = 2" and d: "list_all isdigit s" by (auto simp: two_digits_def)
  from l obtain a b where "s = [a, b]"
    by (cases s; cases "tl s"; auto)
  with d that show ?thesis by auto
qed

lemma two_digits_pair: "two_digits [a, b] \<longleftrightarrow> isdigit a \<and> isdigit b"
  by (simp add: two_digits_def)

lemma py_int_two: "two_digits s \<Longrightarrow> py_int s = Inr (int (number s))"
  by (erule two_digitsE) (simp add: py_int_def number_def isdigit_val)

lemma py_float_two:
  assumes "two_digits ss" "two_digits ff"
  shows "py_float (ss @ ''.'' @ ff) = Inr (fl (of_nat (number ss) + of_nat (number ff) / 100))"
proof -
  from assms(1) obtain a b where s: "ss = [a, b]" "isdigit a" "isdigit b" by (rule two_digitsE)
  from assms(2) obtain c d where f: "ff = [c, d]" "isdigit c" "isdigit d" by (rule two_digitsE)
  show ?thesis using s f
    by (simp add: py_float_def number_def isdigit_val isdigit_not_dot)
qed

lemma to_seconds_time:
  assumes "two_digits hh" "two_digits mm" "two_digits ss" "two_digits ff"
  shows "to_seconds (hh, mm, ss @ ''.'' @ ff) =
           Inr (float_add (float_of_int (int (number hh) * 3600 + int (number mm) * 60))
                  (fl (of_nat (number ss) + of_nat (number ff) / 100)))"
  using assms py_float_two[OF assms(3,4)] by (simp add: to_seconds_def py_int_two)

lemma match_hms_time:
  assumes "two_digits hh" "two_digits mm" "two_digits ss" "two_digits ff"
  shows "match_hms (time_text hh mm ss ff @ post) = Some (hh, mm, ss @ ''.'' @ ff)"
proof -
  from assms(1) obtain h1 h2 where h: "hh = [h1, h2]" "isdigit h1" "isdigit h2" by (rule two_digitsE)
  from assms(2) obtain m1 m2 where m: "mm = [m1, m2]" "isdigit m1" "isdigit m2" by (rule two_digitsE)
  from assms(3) obtain s1 s2 where s: "ss = [s1, s2]" "isdigit s1" "isdigit s2" by (rule two_digitsE)
  from assms(4) obtain f1 f2 where f: "ff = [f1, f2]" "isdigit f1" "isdigit f2" by (rule two_digitsE)
  show ?thesis using h m s f by (simp add: match_hms_def time_text_def)
qed

lemma list11:
  assumes "11 \<le> length s"
  obtains x0 x1 x2 x3 x4 x5 x6 x7 x8 x9 x10 post
  where "s = x0 # x1 # x2 # x3 # x4 # x5 # x6 # x7 # x8 # x9 # x10 # post"
proof -
  from assms obtain n where "length s = 11 + n" using le_Suc_ex by blast
  then have "length s = Suc (Suc (Suc (Suc (Suc (Suc (Suc (Suc (Suc (Suc (Suc n))))))))))"
    by simp
  then have "\<exists>x0 x1 x2 x3 x4 x5 x6 x7 x8 x9 x10 post.
               s = x0 # x1 # x2 # x3 # x4 # x5 # x6 # x7 # x8 # x9 # x10 # post"
    by (simp only: length_Suc_conv) blast
  then show ?thesis using that by blast
qed

lemma match_hms_Some:
  assumes "match_hms s = Some g"
  shows "\<exists>hh mm ss ff post. s = time_text hh mm ss ff @ post
           \<and> two_digits hh \<and> two_digits mm \<and> two_digits ss \<and> two_digits ff
           \<and> g = (hh, mm, ss @ ''.'' @ ff)"
proof -
  from assms have len: "11 \<le> length s" by (auto simp: match_hms_def split: if_splits)
  then obtain x0 x1 x2 x3 x4 x5 x6 x7 x8 x9 x10 post
    where s: "s = x0 # x1 # x2 # x3 # x4 # x5 # x6 # x7 # x8 # x9 # x10 # post" by (rule list11)
  from assms have c: "isdigit x0" "isdigit x1" "x2 = CHR '':''" "isdigit x3" "isdigit x4"
    "x5 = CHR '':''" "isdigit x6" "isdigit x7" "x8 = CHR ''.''" "isdigit x9" "isdigit x10"
    and g: "g = ([x0, x1], [x3, x4], [x6, x7, x8, x9, x10])"
    unfolding s by (auto simp: match_hms_def split: if_splits)
  have "s = time_text [x0, x1] [x3, x4] [x6, x7] [x9, x10] @ post"
    using s c by (simp add: time_text_def)
  moreover have "g = ([x0, x1], [x3, x4], [x6, x7] @ ''.'' @ [x9, x10])" using g c by simp
  ultimately show ?thesis using c by (fastforce simp: two_digits_pair)
qed

lemma match_at_Some:
  assumes "match_at lit s = Some g"
  shows "\<exists>hh mm ss ff post. s = lit @ time_text hh mm ss ff @ post
           \<and> two_digits hh \<and> two_digits mm \<and> two_digits ss \<and> two_digits ff
           \<and> g = (hh, mm, ss @ ''.'' @ ff)"
proof -
  from assms have p: "take (length lit) s = lit" and m: "match_hms (drop (length lit) s) = Some g"
    by (auto simp: match_at_def split: if_splits)
  from match_hms_Some[OF m] obtain hh mm ss ff post where
    d: "drop (length lit) s = time_text hh mm ss ff @ post" and
    r: "two_digits hh" "two_digits mm" "two_digits ss" "two_digits ff" "g = (hh, mm, ss @ ''.'' @ ff)"
    by blast
  have "s = lit @ time_text hh mm ss ff @ post"
    using p d by (metis append_take_drop_id)
  then show ?thesis using r by blast
qed

lemma match_at_time:
  assumes "two_digits hh" "two_digits mm" "two_digits ss" "two_digits ff"
  shows "match_at lit (lit @ time_text hh mm ss ff @ post) = Some (hh, mm, ss @ ''.'' @ ff)"
  using match_hms_time[OF assms] by (simp add: match_at_def)

text \<open>\<open>re_search\<close> returns the match at the leftmost position that has one.\<close>

lemma re_search_Some:
  assumes "re_search lit line = Some g"
  shows "\<exists>pre rest. line = pre @ rest \<and> match_at lit rest = Some g
           \<and> (\<forall>pre' rest'. line = pre' @ rest' \<and> length pre' < length pre
                  \<longrightarrow> match_at lit rest' = None)"
  using assms
proof (induction line)
  case Nil
  then show ?case by auto
next
  case (Cons c cs)
  show ?case
  proof (cases "match_at lit (c # cs)")
    case (Some g')
    with Cons.prems have "g' = g" by simp
    with Some have "c # cs = [] @ (c # cs) \<and> match_at lit (c # cs) = Some g
        \<and> (\<forall>pre' rest'. c # cs = pre' @ rest' \<and> length pre' < length ([]::string)
               \<longrightarrow> match_at lit rest' = None)" by simp
    then show ?thesis by blast
  next
    case None
    with Cons.prems have "re_search lit cs = Some g" by simp
    from Cons.IH[OF this] obtain pre rest where
      pr: "cs = pre @ rest" "match_at lit rest = Some g" and
      mn: "\<forall>pre' rest'. cs = pre' @ rest' \<and> length pre' < length pre \<longrightarrow> match_at lit rest' = None"
      by blast
    have "\<forall>pre' rest'. c # cs = pre' @ rest' \<and> length pre' < length (c # pre)
            \<longrightarrow> match_at lit rest' = None"
    proof (intro allI impI)
      fix pre' rest'
      assume a: "c # cs = pre' @ rest' \<and> length pre' < length (c # pre)"
      show "match_at lit rest' = None"
      proof (cases pre')
        case Nil
        with a None show ?thesis by simp
      next
        case (Cons x xs)
        with a have "cs = xs @ rest'" "length xs < length pre" by auto
        with mn show ?thesis by blast
      qed
    qed
    moreover have "c # cs = (c # pre) @ rest" using pr by simp
    ultimately show ?thesis using pr(2) by blast
  qed
qed

lemma re_search_None: "re_search lit (pre @ rest) = None \<Longrightarrow> match_at lit rest = None"
proof (induction pre)
  case Nil
  then show ?case by (cases rest) (auto split: option.splits)
next
  case (Cons c cs)
  then show ?case by (auto split: option.splits)
qed

lemma re_search_None_iff: "re_search lit line = None \<longleftrightarrow> \<not> has_time lit line"
proof
  assume n: "re_search lit line = None"
  show "\<not> has_time lit line"
  proof
    assume "has_time lit line"
    then obtain pre hh mm ss ff post where
      l: "line = pre @ lit @ time_text hh mm ss ff @ post" and
      d: "two_digits hh" "two_digits mm" "two_digits ss" "two_digits ff"
      unfolding has_time_def by blast
    from n l have "match_at lit (lit @ time_text hh mm ss ff @ post) = None"
      using re_search_None by blast
    then show False using match_at_time[OF d] by simp
  qed
next
  assume h: "\<not> has_time lit line"
  show "re_search lit line = None"
  proof (rule ccontr)
    assume "re_search lit line \<noteq> None"
    then obtain g where "re_search lit line = Some g" by auto
    from re_search_Some[OF this] obtain pre rest where
      "line = pre @ rest" "match_at lit rest = Some g" by blast
    with match_at_Some[of lit rest g] have "has_time lit line"
      unfolding has_time_def by blast
    with h show False by simp
  qed
qed

section \<open>The trace of a run\<close>

lemma texts_map_Line [simp]: "texts (map Line ls) = ls"
  by (induction ls) auto

lemma readable_map_Line [simp]: "readable (map Line ls)"
  by (induction ls) auto

lemma texts_append_Line [simp]: "texts (map Line pre @ rs) = pre @ texts rs"
  by (induction pre) auto

lemma readable_append_Line [simp]: "readable (map Line pre @ rs) = readable rs"
  by (induction pre) auto



lemma to_seconds_nonneg:
  assumes "two_digits hh" "two_digits mm" "two_digits ss" "two_digits ff"
  shows "\<exists>v. to_seconds (hh, mm, ss @ ''.'' @ ff) = Inr v \<and> 0 \<le> v"
proof -
  have a: "0 \<le> fl (of_nat (number ss) + of_nat (number ff) / 100)"
    by (rule fl_nonneg) simp
  have b: "0 \<le> float_of_int (int (number hh) * 3600 + int (number mm) * 60)"
    unfolding float_of_int_def by (rule fl_nonneg) simp
  have "0 \<le> float_add (float_of_int (int (number hh) * 3600 + int (number mm) * 60))
                 (fl (of_nat (number ss) + of_nat (number ff) / 100))"
    unfolding float_add_def using a b by (intro fl_nonneg) simp
  then show ?thesis using to_seconds_time[OF assms] by simp
qed

lemma re_search_to_seconds:
  assumes "re_search lit line = Some g"
  shows "\<exists>v. to_seconds g = Inr v \<and> 0 \<le> v"
proof -
  from re_search_Some[OF assms] obtain pre rest where "match_at lit rest = Some g" by blast
  from match_at_Some[OF this] obtain hh mm ss ff where
    "two_digits hh" "two_digits mm" "two_digits ss" "two_digits ff" "g = (hh, mm, ss @ ''.'' @ ff)"
    by blast
  then show ?thesis using to_seconds_nonneg by blast
qed

lemma scan_duration_skip:
  "\<forall>l \<in> set pre. re_search duration_re l = None \<Longrightarrow>
     scan_duration None (map Line pre @ rest) = scan_duration None rest"
  by (induction pre) auto



lemma scan_duration_first:
  assumes "\<forall>l \<in> set pre. re_search duration_re l = None"
    and "re_search duration_re line = Some g" and "to_seconds g = Inr d"
  shows "scan_duration None (map Line pre @ Line line # post) = Inr (Some d, post)"
  using scan_duration_skip[OF assms(1), of "Line line # post"] assms(2,3) by simp


lemma scan_duration_cases:
  "scan_duration None rs = Inr (None, [])
   \<or> (\<exists>d unread. scan_duration None rs = Inr (Some d, unread) \<and> 0 \<le> d)
   \<or> (scan_duration None rs = Inl UnicodeDecodeError \<and> \<not> readable rs)"
proof (induction rs)
  case Nil
  then show ?case by simp
next
  case (Cons r rs)
  show ?case
  proof (cases r)
    case DecodeFailure
    then show ?thesis by simp
  next
    case (Line l)
    show ?thesis
    proof (cases "re_search duration_re l")
      case None
      then show ?thesis using Cons Line by simp
    next
      case (Some g)
      from re_search_to_seconds[OF Some] obtain v where "to_seconds g = Inr v" "0 \<le> v" by blast
      then show ?thesis using Some Line by simp
    qed
  qed
qed

lemma progress_of_percent: "d \<noteq> 0 \<Longrightarrow> progress_of t d = Inr (percent d t)"
  by (simp add: progress_of_def float_truediv_def percent_def)

lemma progress_loop_events:
  "d \<noteq> 0 \<Longrightarrow>
     progress_loop inp d rs =
       (map (\<lambda>t. progress_updated inp (percent d t)) (times (texts rs)),
        if readable rs then None else Some UnicodeDecodeError)"
proof (induction rs)
  case Nil
  then show ?case by simp
next
  case (Cons r rs)
  show ?case
  proof (cases r)
    case DecodeFailure
    then show ?thesis by simp
  next
    case (Line l)
    show ?thesis
    proof (cases "re_search time_re l")
      case None
      then show ?thesis using Cons Line by simp
    next
      case (Some g)
      from re_search_to_seconds[OF Some] obtain v where "to_seconds g = Inr v" by blast
      then show ?thesis using Some Cons Line by (simp add: progress_of_percent)
    qed
  qed
qed

text \<open>The trace of a run whose process was started, by what the scan of the diagnostic
  stream gives.\<close>

lemma run_spawned:
  assumes "ffmpeg_path t = Some exe"
    and "os (command exe (input_file t) (output_file t)) = Some p"
  shows "run os t =
     (case scan_duration None (stderr p) of
        Inl e \<Rightarrow> ([status_updated (input_file t) ''Starting conversion...''], Some e)
      | Inr (Some d, unread) \<Rightarrow>
          if d \<noteq> 0
          then ([status_updated (input_file t) ''Starting conversion...'',
                 status_updated (input_file t) ''Converting...'']
                @ map (\<lambda>c. progress_updated (input_file t) (percent d c))
                    (times (texts (stdout p)))
                @ (if readable (stdout p)
                   then on_exit (input_file t) (output_file t) (returncode p) else []),
                if readable (stdout p) then None else Some UnicodeDecodeError)
          else (status_updated (input_file t) ''Starting conversion...''
                # on_exit (input_file t) (output_file t) (returncode p), None)
      | Inr (None, unread) \<Rightarrow>
          (status_updated (input_file t) ''Starting conversion...''
             # on_exit (input_file t) (output_file t) (returncode p), None))"
proof -
  from scan_duration_cases[of "stderr p"] show ?thesis
  proof (elim disjE)
    assume "scan_duration None (stderr p) = Inr (None, [])"
    then show ?thesis using assms by (simp add: run_def Let_def)
  next
    assume "\<exists>d unread. scan_duration None (stderr p) = Inr (Some d, unread) \<and> 0 \<le> d"
    then obtain d unread where s: "scan_duration None (stderr p) = Inr (Some d, unread)" by blast
    show ?thesis using assms s by (simp add: run_def Let_def progress_loop_events)
  next
    assume "scan_duration None (stderr p) = Inl UnicodeDecodeError \<and> \<not> readable (stderr p)"
    then show ?thesis using assms by (simp add: run_def Let_def)
  qed
qed

section \<open>The percentage: range, order and distance from the exact value\<close>

lemma int_of_float_mono: "x \<le> y \<Longrightarrow> int_of_float x \<le> int_of_float y"
proof -
  assume xy: "x \<le> y"
  consider "0 \<le> x" | "x < 0" "0 \<le> y" | "x < 0" "y < 0" by linarith
  then show ?thesis
  proof cases
    case 1 then show ?thesis using xy by (simp add: int_of_float_def floor_mono)
  next
    case 2
    have "\<lceil>x\<rceil> \<le> 0" using 2(1) by (simp add: ceiling_le_iff)
    moreover have "0 \<le> \<lfloor>y\<rfloor>" using 2(2) by simp
    ultimately have "\<lceil>x\<rceil> \<le> \<lfloor>y\<rfloor>" by linarith
    then show ?thesis using 2 by (simp add: int_of_float_def)
  next
    case 3 then show ?thesis using xy by (simp add: int_of_float_def ceiling_mono)
  qed
qed

lemma percent_le: "percent d t \<le> 99"
  by (simp add: percent_def)

lemma percent_nonneg:
  assumes "0 < d" "0 \<le> t"
  shows "0 \<le> percent d t"
proof -
  have "0 \<le> fl (t / d)" using assms by (intro fl_nonneg) simp
  then have "0 \<le> fl (fl (t / d) * 100)" by (intro fl_nonneg) simp
  then show ?thesis by (simp add: percent_def float_mul_def int_of_float_def)
qed

lemma percent_mono:
  assumes "0 < d" "t \<le> t'"
  shows "percent d t \<le> percent d t'"
proof -
  have "t / d \<le> t' / d" using assms by (simp add: divide_right_mono)
  then have "fl (t / d) \<le> fl (t' / d)" by (rule fl_mono)
  then have "fl (t / d) * 100 \<le> fl (t' / d) * 100" by simp
  then have "fl (fl (t / d) * 100) \<le> fl (fl (t' / d) * 100)" by (rule fl_mono)
  then have "int_of_float (fl (fl (t / d) * 100)) \<le> int_of_float (fl (fl (t' / d) * 100))"
    by (rule int_of_float_mono)
  then show ?thesis by (simp add: percent_def float_mul_def)
qed

lemma ilog2_less: "0 < x \<Longrightarrow> x < 2 powi n \<Longrightarrow> ilog2 x < n"
  using ilog2_bounds(1)[of x] pow2_less_exp[of "ilog2 x" n] by linarith

lemma fl_error_below:
  assumes "0 < x" "x < 2 powi n"
  shows "\<bar>fl x - x\<bar> \<le> 2 powi (n - 54)"
proof -
  have "ilog2 x - 53 \<le> n - 54" using ilog2_less[OF assms] by simp
  then have "(2::rat) powi (ilog2 x - 53) \<le> 2 powi (n - 54)"
    by (intro power_int_increasing) auto
  then show ?thesis using fl_error[OF assms(1)] by linarith
qed

lemma fl_one: "fl 1 = 1"
  using fl_of_int[of 1] by simp

lemma fl_hundred: "fl 100 = 100"
  using fl_of_int[of 100] by simp

lemma floor_close:
  fixes r x :: rat
  assumes "\<bar>r - x\<bar> < 1"
  shows "\<bar>\<lfloor>r\<rfloor> - \<lfloor>x\<rfloor>\<bar> \<le> 1"
proof -
  have a: "r \<le> x + 1" "x \<le> r + 1" using assms by linarith+
  have "\<lfloor>r\<rfloor> \<le> \<lfloor>x + 1\<rfloor>" using a(1) by (rule floor_mono)
  moreover have "\<lfloor>x\<rfloor> \<le> \<lfloor>r + 1\<rfloor>" using a(2) by (rule floor_mono)
  ultimately show ?thesis by simp
qed

lemma min_close:
  fixes a b :: int
  assumes "\<bar>a - b\<bar> \<le> 1"
  shows "\<bar>min 99 a - min 99 b\<bar> \<le> 1"
  using assms by (auto simp: min_def)

lemma percent_within_one:
  assumes "0 < d" "0 \<le> t"
  shows "\<bar>percent d t - min 99 \<lfloor>t / d * 100\<rfloor>\<bar> \<le> 1"
proof (cases "d \<le> t")
  case True
  then have y: "1 \<le> t / d" using assms by (simp add: pos_le_divide_eq)
  then have "fl 1 \<le> fl (t / d)" by (rule fl_mono)
  then have "100 \<le> fl (t / d) * 100" by (simp add: fl_one)
  then have "fl 100 \<le> fl (fl (t / d) * 100)" by (rule fl_mono)
  then have "100 \<le> fl (fl (t / d) * 100)" by (simp add: fl_hundred)
  then have "100 \<le> \<lfloor>fl (fl (t / d) * 100)\<rfloor>" by (simp add: le_floor_iff)
  then have a: "percent d t = 99"
    by (simp add: percent_def float_mul_def int_of_float_def)
  have "100 \<le> t / d * 100" using mult_right_mono[OF y, of 100] by simp
  then have "100 \<le> \<lfloor>t / d * 100\<rfloor>" by (simp add: le_floor_iff)
  then have "min 99 \<lfloor>t / d * 100\<rfloor> = 99" by simp
  with a show ?thesis by simp
next
  case False
  then have y1: "t / d < 1" using assms by (simp add: pos_divide_less_eq)
  show ?thesis
  proof (cases "t = 0")
    case True
    then show ?thesis by (simp add: percent_def float_mul_def int_of_float_def)
  next
    case False
    then have ty: "0 < t / d" using assms by simp
    define y where "y = t / d"
    define q where "q = fl y"
    define r where "r = fl (q * 100)"
    have y0: "0 < y" and y1': "y < 1" using ty y1 by (simp_all add: y_def)
    have "y < 2 powi 0" using y1' by simp
    from fl_error_below[OF y0 this] have e1: "\<bar>q - y\<bar> \<le> 2 powi (- 54)"
      by (simp add: q_def)
    have q0: "0 < q" unfolding q_def using y0 by (rule fl_pos)
    have "q \<le> fl 1" unfolding q_def using y1' by (intro fl_mono) simp
    then have q1: "q \<le> 1" by (simp add: fl_one)
    have z0: "0 < q * 100" using q0 by simp
    have "q * 100 < 2 powi 7" using q1 by simp
    from fl_error_below[OF z0 this] have e2: "\<bar>r - q * 100\<bar> \<le> 2 powi (- 47)"
      by (simp add: r_def)
    have p54: "(2::rat) powi (- 54) = 1 / 2 ^ 54" by (simp add: power_int_minus_divide)
    have p47: "(2::rat) powi (- 47) = 1 / 2 ^ 47" by (simp add: power_int_minus_divide)
    have "\<bar>r - y * 100\<bar> \<le> 2 powi (- 47) + 100 * 2 powi (- 54)"
      using e1 e2 by linarith
    also have "\<dots> < 1" unfolding p54 p47 by simp
    finally have "\<bar>r - y * 100\<bar> < 1" .
    then have fc: "\<bar>\<lfloor>r\<rfloor> - \<lfloor>y * 100\<rfloor>\<bar> \<le> 1" by (rule floor_close)
    have r0: "0 \<le> r" unfolding r_def using z0 by (intro fl_nonneg) simp
    have "percent d t = min 99 \<lfloor>r\<rfloor>"
      using r0 by (simp add: percent_def float_mul_def int_of_float_def r_def q_def y_def)
    moreover have "\<lfloor>t / d * 100\<rfloor> = \<lfloor>y * 100\<rfloor>" by (simp add: y_def)
    ultimately show ?thesis using min_close[OF fc] by simp
  qed
qed

lemma times_nonneg: "t \<in> set (times lines) \<Longrightarrow> 0 \<le> t"
proof (induction lines)
  case Nil
  then show ?case by simp
next
  case (Cons l ls)
  show ?case
  proof (cases "re_search time_re l")
    case None
    then show ?thesis using Cons by simp
  next
    case (Some g)
    from re_search_to_seconds[OF Some] obtain v where "to_seconds g = Inr v" "0 \<le> v" by blast
    then show ?thesis using Some Cons by auto
  qed
qed

lemma sorted_percent:
  assumes "0 < d" "sorted ts"
  shows "sorted (map (percent d) ts)"
  using assms(2) by (induction ts) (auto simp: percent_mono[OF assms(1)])

lemma progress_values_map [simp]:
  "progress_values (map (\<lambda>t. progress_updated inp (f t)) ts) = map f ts"
  by (induction ts) auto

lemma progress_values_append [simp]:
  "progress_values (xs @ ys) = progress_values xs @ progress_values ys"
  by (induction xs rule: progress_values.induct) auto

lemma progress_values_on_exit [simp]:
  "progress_values (on_exit inp outp rc) = (if rc = 0 then [100] else [])"
  by (simp add: on_exit_def)

section \<open>The values of a run are normal doubles\<close>

text \<open>
  A time read from a line is zero or lies between \<open>2\<^sup>-\<^sup>7\<close> and \<open>2\<^sup>1\<^sup>9\<close>, and for two
  such times the quotient and its product with 100 lie between \<open>2\<^sup>-\<^sup>2\<^sup>6\<close> and
  \<open>2\<^sup>3\<^sup>3\<close>: every float that \<open>run\<close> computes is zero or in the normal range of
  binary64, where rounding is what \<open>fl\<close> does.
\<close>

lemma number_two: "number [a, b] = 10 * (of_char a - 48) + (of_char b - 48)"
  by (simp add: number_def)

lemma isdigit_le9: "isdigit c \<Longrightarrow> (of_char c :: nat) - 48 \<le> 9"
  unfolding isdigit_def digit_val_def Let_def by (auto split: if_splits)

lemma number_le99: "two_digits s \<Longrightarrow> number s \<le> 99"
proof (erule two_digitsE)
  fix a b assume "s = [a, b]" "isdigit a" "isdigit b"
  then show ?thesis using isdigit_le9[of a] isdigit_le9[of b] by (simp add: number_two)
qed

lemma float_of_int_small: "\<bar>n\<bar> < 2 ^ 53 \<Longrightarrow> float_of_int n = of_int n"
  by (simp add: float_of_int_def fl_of_int)

lemma fl_pow2: "fl (2 powi k) = 2 powi k"
  using fl_representable[of 1 k] by simp

lemma fl_between:
  assumes "2 powi a \<le> x" "x \<le> 2 powi b"
  shows "2 powi a \<le> fl x \<and> fl x \<le> 2 powi b"
  using fl_mono[OF assms(1)] fl_mono[OF assms(2)] by (simp only: fl_pow2)

lemma seconds_range:
  assumes "two_digits hh" "two_digits mm" "two_digits ss" "two_digits ff"
    and "to_seconds (hh, mm, ss @ ''.'' @ ff) = Inr v"
  shows "v = 0 \<or> (2 powi (- 7) \<le> v \<and> v \<le> 2 powi 19)"
proof -
  define H :: rat where "H = of_nat (number hh * 3600 + number mm * 60)"
  define S :: rat where "S = of_nat (number ss) + of_nat (number ff) / 100"
  have hb: "number hh \<le> 99" "number mm \<le> 99" "number ss \<le> 99" "number ff \<le> 99"
    using assms(1-4) by (simp_all add: number_le99)
  have "\<bar>int (number hh) * 3600 + int (number mm) * 60\<bar> < 2 ^ 53"
    using hb by simp
  then have "float_of_int (int (number hh) * 3600 + int (number mm) * 60) = H"
    by (simp add: float_of_int_small H_def)
  then have v: "v = fl (H + fl S)"
    using to_seconds_time[OF assms(1-4)] assms(5)
    by (simp add: float_add_def S_def)
  have H0: "0 \<le> H" by (simp add: H_def)
  have "number hh * 3600 + number mm * 60 \<le> 99 * 3600 + 99 * 60"
    using hb by (intro add_mono mult_right_mono) simp_all
  then have "H \<le> of_nat (99 * 3600 + 99 * 60)" unfolding H_def by (simp only: of_nat_le_iff)
  then have H1: "H \<le> 362340" by simp
  have H2: "H = 0 \<or> 1 \<le> H"
  proof (cases "number hh * 3600 + number mm * 60 = 0")
    case True
    then show ?thesis by (simp add: H_def)
  next
    case False
    then have "1 \<le> number hh * 3600 + number mm * 60" by linarith
    then have "(of_nat 1 :: rat) \<le> of_nat (number hh * 3600 + number mm * 60)"
      by (simp only: of_nat_le_iff)
    then show ?thesis by (simp add: H_def)
  qed
  have S0: "0 \<le> S" by (simp add: S_def)
  have "(of_nat (number ss) :: rat) \<le> of_nat 99" "(of_nat (number ff) :: rat) \<le> of_nat 99"
    using hb by (simp_all only: of_nat_le_iff)
  then have S1: "S \<le> 2 powi 7" by (simp add: S_def)
  have S2: "S = 0 \<or> 2 powi (- 7) \<le> S"
  proof (cases "number ss = 0 \<and> number ff = 0")
    case True
    then show ?thesis by (simp add: S_def)
  next
    case False
    then have "1 \<le> number ss \<or> 1 \<le> number ff" by auto
    then have "(of_nat 1 :: rat) \<le> of_nat (number ss) \<or> (of_nat 1 :: rat) \<le> of_nat (number ff)"
      by (simp only: of_nat_le_iff)
    then have "1 / 100 \<le> S" unfolding S_def by auto
    then show ?thesis by (simp add: power_int_minus_divide)
  qed
  have F0: "0 \<le> fl S" using S0 by (rule fl_nonneg)
  have F1: "fl S \<le> 2 powi 7" using fl_mono[OF S1] by (simp only: fl_pow2)
  have F2: "fl S = 0 \<or> 2 powi (- 7) \<le> fl S"
  proof (cases "S = 0")
    case True
    then show ?thesis by simp
  next
    case False
    then have "2 powi (- 7) \<le> S" using S2 by simp
    then have "fl (2 powi (- 7)) \<le> fl S" by (rule fl_mono)
    then have "2 powi (- 7) \<le> fl S" by (simp only: fl_pow2)
    then show ?thesis by (rule disjI2)
  qed
  show ?thesis
  proof (cases "H + fl S = 0")
    case True
    then show ?thesis by (simp add: v)
  next
    case False
    have p7: "(2::rat) powi (- 7) = 1 / 128" by (simp add: power_int_minus_divide)
    have lo: "2 powi (- 7) \<le> H + fl S"
      using False H0 H2 F0 F2 unfolding p7 by auto
    have "H + fl S \<le> 362340 + 128" using H1 F1 by simp
    also have "\<dots> \<le> 2 powi 19" by simp
    finally have hi: "H + fl S \<le> 2 powi 19" .
    from fl_between[OF lo hi] show ?thesis by (simp add: v)
  qed
qed

lemma quotient_range:
  assumes "2 powi (- 7) \<le> t" "t \<le> 2 powi 19" "2 powi (- 7) \<le> d" "d \<le> 2 powi 19"
  shows "2 powi (- 26) \<le> fl (t / d) \<and> fl (t / d) \<le> 2 powi 26
       \<and> 2 powi (- 26) \<le> fl (fl (t / d) * 100) \<and> fl (fl (t / d) * 100) \<le> 2 powi 33"
proof -
  have p7: "(2::rat) powi (- 7) = 1 / 128" by (simp add: power_int_minus_divide)
  have p26: "(2::rat) powi (- 26) = 1 / 2 ^ 26" by (simp add: power_int_minus_divide)
  have d0: "0 < d" and t0: "0 < t" using assms unfolding p7 by simp_all
  have "t / d \<le> 2 powi 19 / d" using assms(2) d0 by (simp add: divide_right_mono)
  also have "\<dots> \<le> 2 powi 19 / (1 / 128)"
    using assms(3) unfolding p7 by (intro divide_left_mono) simp_all
  also have "\<dots> = 2 powi 26" by simp
  finally have hi: "t / d \<le> 2 powi 26" .
  have "(2::rat) powi (- 26) = (1 / 128) / 2 powi 19" unfolding p26 by simp
  also have "\<dots> \<le> (1 / 128) / d"
    using assms(4) d0 by (intro divide_left_mono) simp_all
  also have "\<dots> \<le> t / d" using assms(1) d0 unfolding p7 by (intro divide_right_mono) simp_all
  finally have lo: "2 powi (- 26) \<le> t / d" .
  from fl_between[OF lo hi] have q: "2 powi (- 26) \<le> fl (t / d)" "fl (t / d) \<le> 2 powi 26"
    by simp_all
  have lo2: "2 powi (- 26) \<le> fl (t / d) * 100" using q(1) unfolding p26 by simp
  have "fl (t / d) * 100 \<le> 2 powi 26 * 100" using q(2) by simp
  also have "\<dots> \<le> 2 powi 33" by simp
  finally have hi2: "fl (t / d) * 100 \<le> 2 powi 33" .
  from fl_between[OF lo2 hi2] q show ?thesis by simp
qed

section \<open>The search for a free name\<close>

lemma find_free_free: "\<not> path_exists fs out \<Longrightarrow> find_free fs b e out c = out"
  by (subst find_free.simps) simp

lemma find_free_taken:
  "path_exists fs out \<Longrightarrow>
     \<exists>k. c \<le> k \<and> find_free fs b e out c = candidate b e k
          \<and> \<not> path_exists fs (candidate b e k)
          \<and> (\<forall>j. c \<le> j \<and> j < k \<longrightarrow> path_exists fs (candidate b e j))"
proof (induction fs b e out c rule: find_free.induct)
  case (1 fs b e out c)
  have step: "find_free fs b e out c = find_free fs b e (candidate b e c) (c + 1)"
    using "1.prems" by (subst find_free.simps) simp
  show ?case
  proof (cases "path_exists fs (candidate b e c)")
    case False
    then have "find_free fs b e out c = candidate b e c"
      using step by (simp add: find_free_free)
    then show ?thesis using False by (intro exI[of _ c]) auto
  next
    case True
    from "1.IH"[OF "1.prems" True] obtain k where
      k: "c + 1 \<le> k" "find_free fs b e (candidate b e c) (c + 1) = candidate b e k"
         "\<not> path_exists fs (candidate b e k)"
         "\<forall>j. c + 1 \<le> j \<and> j < k \<longrightarrow> path_exists fs (candidate b e j)"
      by blast
    have "\<forall>j. c \<le> j \<and> j < k \<longrightarrow> path_exists fs (candidate b e j)"
    proof (intro allI impI)
      fix j assume j: "c \<le> j \<and> j < k"
      show "path_exists fs (candidate b e j)"
      proof (cases "j = c")
        case True
        then show ?thesis using \<open>path_exists fs (candidate b e c)\<close> by simp
      next
        case False
        then have "c + 1 \<le> j" using j by simp
        then show ?thesis using k(4) j by simp
      qed
    qed
    then show ?thesis using k step by (intro exI[of _ k]) simp
  qed
qed

lemma rsplit_head_ext:
  assumes "CHR ''.'' \<notin> set e"
  shows "rsplit_head (stem @ ''.'' @ e) = stem"
proof -
  have "dropWhile (\<lambda>c. c \<noteq> CHR ''.'') (rev e @ CHR ''.'' # rev stem) = CHR ''.'' # rev stem"
    using assms by (auto simp: dropWhile_append3)
  then show ?thesis by (simp add: rsplit_head_def)
qed

lemma lstrip_dots_ext:
  assumes "CHR ''.'' \<notin> set e"
  shows "lstrip_dots (''.'' @ e) = e"
  using assms by (cases e) (auto simp: lstrip_dots_def)

lemma candidate_ext:
  assumes "CHR ''.'' \<notin> set e"
  shows "candidate (stem @ ''.'' @ e) (''.'' @ e) k = stem @ ''_'' @ str_nat k @ ''.'' @ e"
  using rsplit_head_ext[OF assms, of stem] lstrip_dots_ext[OF assms]
  by (simp add: candidate_def)

section \<open>Delivery of the signals and the shape of a run\<close>

lemma log_file_update_progress [simp]: "log_file (update_progress s f v) = log_file s"
  by (simp add: update_progress_def split: option.splits)

lemma log_file_update_status [simp]: "log_file (update_status s f v) = log_file s"
  by (simp add: update_status_def split: option.splits)



lemma log_file_on_thread_finished [simp]:
  "log_file (on_thread_finished s f) = log_file s"
  by (simp add: on_thread_finished_def)



lemma before_exit_progress:
  assumes "0 < d"
  shows "list_all before_exit (map (\<lambda>c. progress_updated inp (percent d c)) (times lines))"
  using percent_nonneg[OF assms] percent_le[of d] times_nonneg[of _ lines]
  by (induction lines) (auto simp: list_all_iff)

text \<open>
  A run whose process was started emits events of a job under way and then either returns,
  with the events of the exit code last, or raises the decoding error.
\<close>

lemma run_trace:
  assumes "ffmpeg_path t = Some exe"
    and "os (command exe (input_file t) (output_file t)) = Some p"
  shows "\<exists>evs. list_all before_exit evs
           \<and> (run os t = (evs @ on_exit (input_file t) (output_file t) (returncode p), None)
                \<or> run os t = (evs, Some UnicodeDecodeError))"
proof -
  note r = run_spawned[where os = os, OF assms]
  let ?start = "status_updated (input_file t) ''Starting conversion...''"
  from scan_duration_cases[of "stderr p"] show ?thesis
  proof (elim disjE)
    assume "scan_duration None (stderr p) = Inr (None, [])"
    then have "run os t = ([?start] @ on_exit (input_file t) (output_file t) (returncode p), None)"
      using r by simp
    moreover have "list_all before_exit [?start]" by simp
    ultimately show ?thesis by blast
  next
    assume "scan_duration None (stderr p) = Inl UnicodeDecodeError \<and> \<not> readable (stderr p)"
    then have "run os t = ([?start], Some UnicodeDecodeError)" using r by simp
    moreover have "list_all before_exit [?start]" by simp
    ultimately show ?thesis by blast
  next
    assume "\<exists>d unread. scan_duration None (stderr p) = Inr (Some d, unread) \<and> 0 \<le> d"
    then obtain d unread where s: "scan_duration None (stderr p) = Inr (Some d, unread)"
      and d0: "0 \<le> d" by blast
    show ?thesis
    proof (cases "d = 0")
      case True
      then have "run os t = ([?start] @ on_exit (input_file t) (output_file t) (returncode p), None)"
        using r s by simp
      moreover have "list_all before_exit [?start]" by simp
      ultimately show ?thesis by blast
    next
      case False
      then have d: "0 < d" using d0 by simp
      let ?evs = "[?start, status_updated (input_file t) ''Converting...'']
                  @ map (\<lambda>c. progress_updated (input_file t) (percent d c))
                      (times (texts (stdout p)))"
      have b: "list_all before_exit ?evs" using before_exit_progress[OF d] by simp
      show ?thesis
      proof (cases "readable (stdout p)")
        case True
        then have "run os t = (?evs @ on_exit (input_file t) (output_file t) (returncode p), None)"
          using r s False by simp
        with b show ?thesis by blast
      next
        case False
        then have "run os t = (?evs, Some UnicodeDecodeError)"
          using r s \<open>d \<noteq> 0\<close> by simp
        with b show ?thesis by blast
      qed
    qed
  qed
qed



lemma run_readable:
  assumes "ffmpeg_path t = Some exe"
    and "os (command exe (input_file t) (output_file t)) = Some p"
    and "readable (stderr p)" and "readable (stdout p)"
  shows "snd (run os t) = None"
proof -
  from scan_duration_cases[of "stderr p"] assms(3)
  have "scan_duration None (stderr p) = Inr (None, [])
        \<or> (\<exists>d unread. scan_duration None (stderr p) = Inr (Some d, unread))" by auto
  then show ?thesis
    using run_spawned[where os = os, OF assms(1,2)] assms(4) by auto
qed

lemma on_exit_no_finished:
  "rc \<noteq> 0 \<Longrightarrow> \<not> list_ex is_finished (on_exit inp outp rc)"
  by (simp add: on_exit_def)

lemma run_no_zero_division: "snd (run os t) \<noteq> Some ZeroDivisionError"
proof (cases "ffmpeg_path t")
  case None
  then show ?thesis by (simp add: run_def Let_def)
next
  case (Some exe)
  show ?thesis
  proof (cases "os (command exe (input_file t) (output_file t))")
    case None
    then show ?thesis using Some by (simp add: run_def Let_def)
  next
    case (Some p)
    from run_trace[where os = os, OF \<open>ffmpeg_path t = Some exe\<close> Some]
    show ?thesis by auto
  qed
qed

section \<open>The sample jobs, evaluated\<close>

lemma clip_thread_path: "ffmpeg_path clip_thread = Some ''ffmpeg''"
  by (simp add: clip_thread_def)

lemma only_clip_spawns:
  "only_clip p (command ''ffmpeg'' (input_file clip_thread) (output_file clip_thread)) = Some p"
  by (simp add: only_clip_def clip_thread_def)

lemma two_minutes_stdout: "map Line (texts (stdout two_minutes)) = stdout two_minutes"
  by (simp add: two_minutes_def)

lemma two_minutes_readable: "readable (stderr two_minutes) \<and> readable (stdout two_minutes)"
  by (simp add: two_minutes_def)

lemma two_minutes_times: "times (texts (stdout two_minutes)) = [0, 60, 119, 120]"
  by code_simp

lemma percent_two_minutes: "map (percent 120) [0, 60, 119, 120] = [0, 50, 99, 99]"
  by code_simp

lemma two_minutes_run:
  "run (only_clip two_minutes) clip_thread =
     ([status_updated ''clip.mp4'' ''Starting conversion...'',
       status_updated ''clip.mp4'' ''Converting...'',
       progress_updated ''clip.mp4'' 0, progress_updated ''clip.mp4'' 50,
       progress_updated ''clip.mp4'' 99, progress_updated ''clip.mp4'' 99,
       progress_updated ''clip.mp4'' 100, status_updated ''clip.mp4'' ''Completed'',
       conversion_finished ''clip.mp4'' ''clip.mkv''], None)"
  by code_simp

lemma two_minutes_scan:
  "scan_duration None (stderr two_minutes)
     = Inr (Some 120, [Line ''  Duration: 00:09:00.00, start: 0.000000, bitrate: 128 kb/s''])"
  by code_simp

lemma input_line_no_duration:
  "\<not> has_time duration_re ''Input #0, mov,mp4,m4a,3gp,3g2,mj2, from clip.mp4:''"
proof -
  have "re_search duration_re ''Input #0, mov,mp4,m4a,3gp,3g2,mj2, from clip.mp4:'' = None"
    by code_simp
  then show ?thesis by (rule iffD1[OF re_search_None_iff])
qed



lemma duration_line_search:
  "re_search duration_re ''  Duration: 00:02:00.00, start: 0.000000, bitrate: 128 kb/s''
     = Some (''00'', ''02'', ''00.00'')"
  by code_simp

lemma duration_line_has_time:
  "has_time duration_re ''  Duration: 00:02:00.00, start: 0.000000, bitrate: 128 kb/s''"
  using duration_line_search
    re_search_None_iff[of duration_re "''  Duration: 00:02:00.00, start: 0.000000, bitrate: 128 kb/s''"]
  by simp

lemma zero_line_search:
  "re_search duration_re ''  Duration: 00:00:00.00, start: 0.000000, bitrate: N/A''
     = Some (''00'', ''00'', ''00.00'')"
  by code_simp

lemma zero_seconds: "to_seconds (''00'', ''00'', ''00.00'') = Inr 0"
  by code_simp



lemma once: "destination [''foo.mp4'', ''foo.mkv''] ''foo.mp4'' ''.mkv'' = ''foo_1.mkv''"
  by code_simp

lemma twice: "destination [''foo.mp4'', ''foo.mkv'', ''foo_1.mkv''] ''foo.mp4'' ''.mkv'' = ''foo_2.mkv''"
  by code_simp

section \<open>Properties of the progress parser\<close>



section \<open>Properties of the runner\<close>

subsection \<open>The duration\<close>

text \<open>
  C7. When the reads of the diagnostic stream give lines without a duration and then a
  line with one, the scan stops at that line with the value read from it and leaves
  everything after it unread: replacing what follows it by anything else gives the same
  run. When that value is not zero, every progress value of the run is computed from it:
  the trace is the two statuses, one progress event for each time that the progress
  stream gives before a read of it fails, and the events of the exit code when no read of
  it fails.
\<close>

theorem duration_first_match_only:
  assumes "ffmpeg_path t = Some exe"
    and "os (command exe (input_file t) (output_file t)) = Some p"
    and "stderr p = map Line pre @ Line line # post"
    and "\<forall>l \<in> set pre. \<not> has_time duration_re l"
    and "has_time duration_re line"
  shows "\<exists>g d. re_search duration_re line = Some g \<and> to_seconds g = Inr d
           \<and> scan_duration None (stderr p) = Inr (Some d, post)
           \<and> (\<forall>post'. run (os(command exe (input_file t) (output_file t)
                               \<mapsto> p\<lparr>stderr := map Line pre @ Line line # post'\<rparr>)) t = run os t)
           \<and> (d \<noteq> 0 \<longrightarrow>
                fst (run os t) =
                  [status_updated (input_file t) ''Starting conversion...'',
                   status_updated (input_file t) ''Converting...'']
                  @ map (\<lambda>c. progress_updated (input_file t) (percent d c))
                      (times (texts (stdout p)))
                  @ (if readable (stdout p)
                     then on_exit (input_file t) (output_file t) (returncode p) else []))"
proof -
  from assms(5) obtain g where g: "re_search duration_re line = Some g"
    using re_search_None_iff[of duration_re line] by auto
  from re_search_to_seconds[OF g] obtain d where d: "to_seconds g = Inr d" by blast
  have n: "\<forall>l \<in> set pre. re_search duration_re l = None"
    using assms(4) by (simp add: re_search_None_iff)
  have s: "scan_duration None (map Line pre @ Line line # post') = Inr (Some d, post')" for post'
    using n g d by (rule scan_duration_first)
  let ?tr = "if d \<noteq> 0
      then ([status_updated (input_file t) ''Starting conversion...'',
                 status_updated (input_file t) ''Converting...'']
                @ map (\<lambda>c. progress_updated (input_file t) (percent d c))
                    (times (texts (stdout p)))
                @ (if readable (stdout p)
                   then on_exit (input_file t) (output_file t) (returncode p) else []),
            if readable (stdout p) then None else Some UnicodeDecodeError)
      else (status_updated (input_file t) ''Starting conversion...''
                # on_exit (input_file t) (output_file t) (returncode p), None)"
  have r: "run os t = ?tr"
    using run_spawned[where os = os, OF assms(1,2)] s[of post] assms(3) by simp
  have r': "run (os(command exe (input_file t) (output_file t)
                               \<mapsto> p\<lparr>stderr := map Line pre @ Line line # post'\<rparr>)) t = run os t" for post'
  proof -
    let ?p = "p\<lparr>stderr := map Line pre @ Line line # post'\<rparr>"
    let ?os = "os(command exe (input_file t) (output_file t) \<mapsto> ?p)"
    have "?os (command exe (input_file t) (output_file t)) = Some ?p" by simp
    from run_spawned[where os = ?os, OF assms(1) this] have "run ?os t = ?tr"
      using s[of post'] by simp
    then show ?thesis using r by simp
  qed
  have f: "d \<noteq> 0 \<longrightarrow>
                fst (run os t) =
                  [status_updated (input_file t) ''Starting conversion...'',
                   status_updated (input_file t) ''Converting...'']
                  @ map (\<lambda>c. progress_updated (input_file t) (percent d c))
                      (times (texts (stdout p)))
                  @ (if readable (stdout p)
                     then on_exit (input_file t) (output_file t) (returncode p) else [])"
    using r by simp
  have sc: "scan_duration None (stderr p) = Inr (Some d, post)" using s[of post] assms(3) by simp
  from g d sc r' f show ?thesis by blast
qed

theorem duration_first_match_only_witness:
  "ffmpeg_path clip_thread = Some ''ffmpeg''
   \<and> only_clip two_minutes (command ''ffmpeg'' (input_file clip_thread) (output_file clip_thread))
       = Some two_minutes
   \<and> stderr two_minutes
       = map Line [''Input #0, mov,mp4,m4a,3gp,3g2,mj2, from clip.mp4:'']
         @ Line ''  Duration: 00:02:00.00, start: 0.000000, bitrate: 128 kb/s''
         # [Line ''  Duration: 00:09:00.00, start: 0.000000, bitrate: 128 kb/s'']
   \<and> \<not> has_time duration_re ''Input #0, mov,mp4,m4a,3gp,3g2,mj2, from clip.mp4:''
   \<and> has_time duration_re ''  Duration: 00:02:00.00, start: 0.000000, bitrate: 128 kb/s''
   \<and> scan_duration None (stderr two_minutes)
       = Inr (Some 120, [Line ''  Duration: 00:09:00.00, start: 0.000000, bitrate: 128 kb/s''])
   \<and> run ((only_clip two_minutes)
            (command ''ffmpeg'' (input_file clip_thread) (output_file clip_thread)
               \<mapsto> two_minutes\<lparr>stderr :=
                    map Line [''Input #0, mov,mp4,m4a,3gp,3g2,mj2, from clip.mp4:'']
                    @ Line ''  Duration: 00:02:00.00, start: 0.000000, bitrate: 128 kb/s''
                    # [DecodeFailure]\<rparr>))
         clip_thread
       = run (only_clip two_minutes) clip_thread"
proof -
  have s: "stderr two_minutes
       = map Line [''Input #0, mov,mp4,m4a,3gp,3g2,mj2, from clip.mp4:'']
         @ Line ''  Duration: 00:02:00.00, start: 0.000000, bitrate: 128 kb/s''
         # [Line ''  Duration: 00:09:00.00, start: 0.000000, bitrate: 128 kb/s'']"
    by (simp add: two_minutes_def)
  have n: "\<forall>l \<in> set [''Input #0, mov,mp4,m4a,3gp,3g2,mj2, from clip.mp4:''].
             \<not> has_time duration_re l"
    using input_line_no_duration by simp
  from duration_first_match_only[where os = "only_clip two_minutes",
      OF clip_thread_path only_clip_spawns s n duration_line_has_time]
  have "run ((only_clip two_minutes)
            (command ''ffmpeg'' (input_file clip_thread) (output_file clip_thread)
               \<mapsto> two_minutes\<lparr>stderr :=
                    map Line [''Input #0, mov,mp4,m4a,3gp,3g2,mj2, from clip.mp4:'']
                    @ Line ''  Duration: 00:02:00.00, start: 0.000000, bitrate: 128 kb/s''
                    # [DecodeFailure]\<rparr>))
         clip_thread
       = run (only_clip two_minutes) clip_thread"
    by blast
  then show ?thesis
    using clip_thread_path only_clip_spawns s input_line_no_duration duration_line_has_time
      two_minutes_scan by simp
qed

text \<open>
  C10. No run ends in a division by zero; a duration that passes the test \<open>if duration:\<close>
  is positive; and when the first line with a duration gives zero, the run is that of a
  job without a duration: the progress stream is not read at all.
\<close>

theorem zero_duration_is_no_duration:
  "snd (run os t) \<noteq> Some ZeroDivisionError
   \<and> (scan_duration None lines = Inr (Some d, unread) \<and> truthy (Some d) \<longrightarrow> 0 < d)
   \<and> (ffmpeg_path t = Some exe \<and> os (command exe (input_file t) (output_file t)) = Some p
        \<and> stderr p = map Line pre @ Line line # post
        \<and> (\<forall>l \<in> set pre. \<not> has_time duration_re l)
        \<and> re_search duration_re line = Some g \<and> to_seconds g = Inr 0
      \<longrightarrow> run os t =
            (status_updated (input_file t) ''Starting conversion...''
               # on_exit (input_file t) (output_file t) (returncode p), None))"
proof (intro conjI impI)
  show "snd (run os t) \<noteq> Some ZeroDivisionError" by (rule run_no_zero_division)
next
  assume a: "scan_duration None lines = Inr (Some d, unread) \<and> truthy (Some d)"
  from scan_duration_cases[of lines] a have "0 \<le> d" by auto
  with a show "0 < d" by simp
next
  assume a: "ffmpeg_path t = Some exe \<and> os (command exe (input_file t) (output_file t)) = Some p
        \<and> stderr p = map Line pre @ Line line # post
        \<and> (\<forall>l \<in> set pre. \<not> has_time duration_re l)
        \<and> re_search duration_re line = Some g \<and> to_seconds g = Inr 0"
  then have n: "\<forall>l \<in> set pre. re_search duration_re l = None"
    by (simp add: re_search_None_iff)
  have "scan_duration None (map Line pre @ Line line # post) = Inr (Some 0, post)"
    using n a by (intro scan_duration_first) auto
  then show "run os t =
            (status_updated (input_file t) ''Starting conversion...''
               # on_exit (input_file t) (output_file t) (returncode p), None)"
    using a run_spawned[where os = os and t = t and exe = exe and p = p] by simp
qed

theorem zero_duration_is_no_duration_witness:
  "ffmpeg_path clip_thread = Some ''ffmpeg''
   \<and> only_clip zero_length (command ''ffmpeg'' (input_file clip_thread) (output_file clip_thread))
       = Some zero_length
   \<and> stderr zero_length = [Line ''  Duration: 00:00:00.00, start: 0.000000, bitrate: N/A'']
   \<and> re_search duration_re ''  Duration: 00:00:00.00, start: 0.000000, bitrate: N/A''
       = Some (''00'', ''00'', ''00.00'')
   \<and> to_seconds (''00'', ''00'', ''00.00'') = Inr 0
   \<and> run (only_clip zero_length) clip_thread
       = ([status_updated ''clip.mp4'' ''Starting conversion...'',
           progress_updated ''clip.mp4'' 100, status_updated ''clip.mp4'' ''Completed'',
           conversion_finished ''clip.mp4'' ''clip.mkv''], None)
   \<and> scan_duration None (stderr two_minutes)
       = Inr (Some 120, [Line ''  Duration: 00:09:00.00, start: 0.000000, bitrate: 128 kb/s''])
   \<and> truthy (Some 120)
   \<and> (0::rat) < 120"
proof -
  have s: "stderr zero_length
      = map Line [] @ Line ''  Duration: 00:00:00.00, start: 0.000000, bitrate: N/A'' # []"
    by (simp add: zero_length_def)
  note th = zero_duration_is_no_duration[where os = "only_clip zero_length" and t = clip_thread
      and exe = "''ffmpeg''" and p = zero_length and pre = "[]"
      and line = "''  Duration: 00:00:00.00, start: 0.000000, bitrate: N/A''" and post = "[]"
      and g = "(''00'', ''00'', ''00.00'')" and lines = "stderr two_minutes" and d = 120
      and unread = "[Line ''  Duration: 00:09:00.00, start: 0.000000, bitrate: 128 kb/s'']"]
  from th clip_thread_path only_clip_spawns s zero_line_search zero_seconds
  have "run (only_clip zero_length) clip_thread
       = (status_updated (input_file clip_thread) ''Starting conversion...''
            # on_exit (input_file clip_thread) (output_file clip_thread) (returncode zero_length),
          None)"
    by simp
  then have r: "run (only_clip zero_length) clip_thread
       = ([status_updated ''clip.mp4'' ''Starting conversion...'',
           progress_updated ''clip.mp4'' 100, status_updated ''clip.mp4'' ''Completed'',
           conversion_finished ''clip.mp4'' ''clip.mkv''], None)"
    by (simp add: on_exit_def clip_thread_def zero_length_def)
  from th two_minutes_scan have "(0::rat) < 120" by simp
  then show ?thesis
    using r clip_thread_path only_clip_spawns s zero_line_search zero_seconds two_minutes_scan
    by simp
qed




subsection \<open>Progress values\<close>

text \<open>
  With a duration of 100 seconds read from the diagnostic stream and a progress line at 29
  seconds, the loop emits 28: the quotient \<open>29 / 100\<close> rounds to a double just below
  \<open>0.29\<close> and its product with 100 to one just below 29. The exact value of
  \<open>min(99, floor(29 / 100 * 100))\<close> is 29.
\<close>

theorem progress_formula_counterexample:
  "scan_duration None [Line ''  Duration: 00:01:40.00, start: 0.000000, bitrate: 128 kb/s'']
     = Inr (Some 100, [])
   \<and> progress_loop ''clip.mp4'' 100 [Line ''out_time=00:00:29.000000'']
     = ([progress_updated ''clip.mp4'' 28], None)
   \<and> min 99 \<lfloor>(29::rat) / 100 * 100\<rfloor> = (29::int)"
  by code_simp

text \<open>
  C1. For a known duration \<open>d > 0\<close>, the loop over the progress stream emits one progress
  event for each \<open>out_time\<close> line, in order, and none for any other line; the value for
  the time \<open>t\<close> is \<open>percent d t\<close>, that is \<open>min(99, int((t / d) * 100))\<close> with the division
  and the multiplication in double arithmetic. It lies between 0 and 99, so no event of
  the loop carries 100, and it differs from the exact \<open>min(99, floor(t / d * 100))\<close> by at
  most one. For a duration of 120 seconds and the times 0, 60, 119, 120 the values are 0,
  50, 99, 99. When a read of the stream fails, the events are those of the lines read
  before it and the loop raises.
\<close>

theorem progress_formula_in_doubles:
  assumes "0 < d"
  shows "progress_loop inp d (map Line lines)
           = (map (\<lambda>t. progress_updated inp (percent d t)) (times lines), None)
       \<and> (\<forall>t \<in> set (times lines).
             0 \<le> percent d t \<and> percent d t \<le> 99
             \<and> \<bar>percent d t - min 99 \<lfloor>t / d * 100\<rfloor>\<bar> \<le> 1)
       \<and> map (percent 120) [0, 60, 119, 120] = [0, 50, 99, 99]
       \<and> progress_loop inp d rs
           = (map (\<lambda>t. progress_updated inp (percent d t)) (times (texts rs)),
              if readable rs then None else Some UnicodeDecodeError)"
proof (intro conjI ballI)
  have "d \<noteq> 0" using assms by simp
  then show "progress_loop inp d rs
           = (map (\<lambda>t. progress_updated inp (percent d t)) (times (texts rs)),
              if readable rs then None else Some UnicodeDecodeError)"
    by (rule progress_loop_events)
  from progress_loop_events[OF \<open>d \<noteq> 0\<close>, of inp "map Line lines"]
  show "progress_loop inp d (map Line lines)
           = (map (\<lambda>t. progress_updated inp (percent d t)) (times lines), None)"
    by simp
next
  fix t assume "t \<in> set (times lines)"
  then have t: "0 \<le> t" by (rule times_nonneg)
  show "0 \<le> percent d t" using assms t by (rule percent_nonneg)
  show "percent d t \<le> 99" by (rule percent_le)
  show "\<bar>percent d t - min 99 \<lfloor>t / d * 100\<rfloor>\<bar> \<le> 1" using assms t by (rule percent_within_one)
next
  show "map (percent 120) [0, 60, 119, 120] = [0, 50, 99, 99]" by (rule percent_two_minutes)
qed

theorem progress_formula_in_doubles_witness:
  "(0::rat) < 120
   \<and> progress_loop ''clip.mp4'' 120 (stdout two_minutes)
       = ([progress_updated ''clip.mp4'' 0, progress_updated ''clip.mp4'' 50,
           progress_updated ''clip.mp4'' 99, progress_updated ''clip.mp4'' 99], None)
   \<and> 119 \<in> set (times (texts (stdout two_minutes)))
   \<and> \<bar>percent 120 119 - min 99 \<lfloor>(119::rat) / 120 * 100\<rfloor>\<bar> \<le> 1"
proof -
  have h: "(0::rat) < 120" by simp
  have m: "119 \<in> set (times (texts (stdout two_minutes)))" by (simp add: two_minutes_times)
  note th = progress_formula_in_doubles[OF h, of "''clip.mp4''" "texts (stdout two_minutes)"]
  from th have "progress_loop ''clip.mp4'' 120 (map Line (texts (stdout two_minutes)))
       = (map (\<lambda>t. progress_updated ''clip.mp4'' (percent 120 t))
            (times (texts (stdout two_minutes))), None)"
    by (rule conjunct1)
  then have "progress_loop ''clip.mp4'' 120 (stdout two_minutes)
       = (map (\<lambda>t. progress_updated ''clip.mp4'' (percent 120 t)) [0, 60, 119, 120], None)"
    by (simp only: two_minutes_stdout two_minutes_times)
  moreover have "map (\<lambda>t. progress_updated ''clip.mp4'' (percent 120 t)) [0, 60, 119, 120]
      = [progress_updated ''clip.mp4'' 0, progress_updated ''clip.mp4'' 50,
           progress_updated ''clip.mp4'' 99, progress_updated ''clip.mp4'' 99]"
    using percent_two_minutes by simp
  moreover from th m have "\<bar>percent 120 119 - min 99 \<lfloor>(119::rat) / 120 * 100\<rfloor>\<bar> \<le> 1"
    by blast
  ultimately show ?thesis using h m by simp
qed

text \<open>
  C9. For a job whose process was started, the progress values that \<open>run\<close> emits are those
  of the loop, each between 0 and 99, followed by the value 100 exactly when the process
  has exited with code 0 and \<open>run\<close> returns; the values of the loop are non-decreasing
  whenever the times read from the progress stream are. \<open>run\<close> returns when every read
  of both streams succeeds.
\<close>

theorem progress_monotone:
  assumes "ffmpeg_path t = Some exe"
    and "os (command exe (input_file t) (output_file t)) = Some p"
  shows "(\<exists>vs. progress_values (fst (run os t))
                 = vs @ (if returncode p = 0 \<and> snd (run os t) = None then [100] else [])
           \<and> (\<forall>v \<in> set vs. 0 \<le> v \<and> v \<le> 99)
           \<and> (sorted (times (texts (stdout p))) \<longrightarrow> sorted vs))
       \<and> (readable (stderr p) \<and> readable (stdout p) \<longrightarrow> snd (run os t) = None)"
proof (intro conjI impI)
  assume "readable (stderr p) \<and> readable (stdout p)"
  then show "snd (run os t) = None"
    using run_readable[where os = os, OF assms] by simp
next
  note r = run_spawned[where os = os, OF assms]
  let ?tail = "if returncode p = 0 \<and> snd (run os t) = None then [100] else []"
  from scan_duration_cases[of "stderr p"]
  show "\<exists>vs. progress_values (fst (run os t)) = vs @ ?tail
           \<and> (\<forall>v \<in> set vs. 0 \<le> v \<and> v \<le> 99)
           \<and> (sorted (times (texts (stdout p))) \<longrightarrow> sorted vs)"
  proof (elim disjE)
    assume "scan_duration None (stderr p) = Inr (None, [])"
    then have "progress_values (fst (run os t)) = [] @ ?tail" using r by simp
    then show ?thesis by (intro exI[of _ "[]"]) simp
  next
    assume "scan_duration None (stderr p) = Inl UnicodeDecodeError \<and> \<not> readable (stderr p)"
    then have "progress_values (fst (run os t)) = [] @ ?tail" using r by simp
    then show ?thesis by (intro exI[of _ "[]"]) simp
  next
    assume "\<exists>d unread. scan_duration None (stderr p) = Inr (Some d, unread) \<and> 0 \<le> d"
    then obtain d unread where s: "scan_duration None (stderr p) = Inr (Some d, unread)"
      and d0: "0 \<le> d" by blast
    show ?thesis
    proof (cases "d = 0")
      case True
      then have "progress_values (fst (run os t)) = [] @ ?tail" using r s by simp
      then show ?thesis by (intro exI[of _ "[]"]) simp
    next
      case False
      then have d: "0 < d" using d0 by simp
      let ?vs = "map (percent d) (times (texts (stdout p)))"
      have "progress_values (fst (run os t)) = ?vs @ ?tail"
        using r s False by simp
      moreover have "\<forall>v \<in> set ?vs. 0 \<le> v \<and> v \<le> 99"
        using percent_nonneg[OF d] percent_le times_nonneg by auto
      moreover have "sorted (times (texts (stdout p))) \<longrightarrow> sorted ?vs"
        using sorted_percent[OF d] by blast
      ultimately show ?thesis by blast
    qed
  qed
qed

theorem progress_monotone_witness:
  "ffmpeg_path clip_thread = Some ''ffmpeg''
   \<and> only_clip two_minutes (command ''ffmpeg'' (input_file clip_thread) (output_file clip_thread))
       = Some two_minutes
   \<and> readable (stderr two_minutes) \<and> readable (stdout two_minutes)
   \<and> sorted (times (texts (stdout two_minutes)))
   \<and> snd (run (only_clip two_minutes) clip_thread) = None
   \<and> (\<exists>vs. progress_values (fst (run (only_clip two_minutes) clip_thread)) = vs @ [100]
          \<and> sorted vs \<and> 99 \<in> set vs)"
proof -
  have a: "ffmpeg_path clip_thread = Some ''ffmpeg''" by (rule clip_thread_path)
  have b: "only_clip two_minutes
             (command ''ffmpeg'' (input_file clip_thread) (output_file clip_thread))
           = Some two_minutes"
    by (rule only_clip_spawns)
  have c: "sorted (times (texts (stdout two_minutes)))" by (simp add: two_minutes_times)
  have rc: "returncode two_minutes = 0" by (simp add: two_minutes_def)
  note th = progress_monotone[where os = "only_clip two_minutes", OF a b]
  from th two_minutes_readable
  have n: "snd (run (only_clip two_minutes) clip_thread) = None" by blast
  from th obtain vs where
    v: "progress_values (fst (run (only_clip two_minutes) clip_thread)) = vs @ [100]"
    and s: "sorted (times (texts (stdout two_minutes))) \<longrightarrow> sorted vs"
    using rc n by auto
  from v have "vs = [0, 50, 99, 99]" by (simp add: two_minutes_run)
  then have "99 \<in> set vs" by simp
  then show ?thesis using a b c n v s two_minutes_readable by blast
qed

subsection \<open>Exit codes\<close>







section \<open>Properties of the supervisor\<close>

text \<open>
  Two entries of the same file in the queue, converted by one call while \<open>foo.mkv\<close> is
  on disk: both threads are started with the destination \<open>foo_1.mkv\<close>, since the first
  thread has not yet created it when the second name is chosen.
\<close>

theorem same_name_twice_counterexample:
  "map output_file
     (started (handle_convert [''foo.mp4'', ''foo.mkv''] (queued [''foo.mp4'', ''foo.mp4''])))
   = [''foo_1.mkv'', ''foo_1.mkv'']"
  by code_simp

text \<open>
  C2. For a source \<open>stem.e0\<close> and an output extension \<open>.e\<close>, both \<open>e0\<close> and
  \<open>e\<close> without a dot, the destination is \<open>stem.e\<close> when that path is not on disk;
  otherwise it is \<open>stem_k.e\<close> for the least \<open>k \<ge> 1\<close> whose name is not on disk. The
  destination is never on disk, and the thread is started with it. Only the disk is
  consulted: with \<open>foo.mkv\<close> on disk the destination for \<open>foo.mp4\<close> is \<open>foo_1.mkv\<close>, and
  it is \<open>foo_2.mkv\<close> once \<open>foo_1.mkv\<close> is on disk too.
\<close>

theorem destination_free_name:
  assumes "CHR ''.'' \<notin> set e0" and "CHR ''.'' \<notin> set e"
  shows "(\<not> path_exists fs (stem @ ''.'' @ e) \<longrightarrow>
            destination fs (stem @ ''.'' @ e0) (''.'' @ e) = stem @ ''.'' @ e)
       \<and> (path_exists fs (stem @ ''.'' @ e) \<longrightarrow>
            (\<exists>k. 1 \<le> k
               \<and> destination fs (stem @ ''.'' @ e0) (''.'' @ e)
                   = stem @ ''_'' @ str_nat k @ ''.'' @ e
               \<and> (\<forall>j. 1 \<le> j \<and> j < k \<longrightarrow>
                      path_exists fs (stem @ ''_'' @ str_nat j @ ''.'' @ e))))
       \<and> \<not> path_exists fs (destination fs (stem @ ''.'' @ e0) (''.'' @ e))
       \<and> started (convert_file fs self (stem @ ''.'' @ e0) (''.'' @ e))
           = started self
             @ [\<lparr>input_file = stem @ ''.'' @ e0,
                 output_file = destination fs (stem @ ''.'' @ e0) (''.'' @ e),
                 ffmpeg_path = window_ffmpeg_path self\<rparr>]
       \<and> destination [''foo.mp4'', ''foo.mkv''] ''foo.mp4'' ''.mkv'' = ''foo_1.mkv''
       \<and> destination [''foo.mp4'', ''foo.mkv'', ''foo_1.mkv''] ''foo.mp4'' ''.mkv''
           = ''foo_2.mkv''"
proof -
  let ?base = "stem @ ''.'' @ e"
  let ?ext = "''.'' @ e"
  have d: "destination fs (stem @ ''.'' @ e0) ?ext = find_free fs ?base ?ext ?base 1"
    using rsplit_head_ext[OF assms(1), of stem] by (simp add: destination_def Let_def)
  have c: "candidate ?base ?ext k = stem @ ''_'' @ str_nat k @ ''.'' @ e" for k
    by (rule candidate_ext[OF assms(2)])
  have a: "\<not> path_exists fs ?base \<longrightarrow> destination fs (stem @ ''.'' @ e0) ?ext = ?base"
    using d by (simp add: find_free_free)
  have b: "path_exists fs ?base \<longrightarrow>
            (\<exists>k. 1 \<le> k
               \<and> destination fs (stem @ ''.'' @ e0) ?ext = stem @ ''_'' @ str_nat k @ ''.'' @ e
               \<and> \<not> path_exists fs (stem @ ''_'' @ str_nat k @ ''.'' @ e)
               \<and> (\<forall>j. 1 \<le> j \<and> j < k \<longrightarrow>
                      path_exists fs (stem @ ''_'' @ str_nat j @ ''.'' @ e)))"
  proof
    assume "path_exists fs ?base"
    from find_free_taken[OF this, of 1 ?base ?ext] show "\<exists>k. 1 \<le> k
               \<and> destination fs (stem @ ''.'' @ e0) ?ext = stem @ ''_'' @ str_nat k @ ''.'' @ e
               \<and> \<not> path_exists fs (stem @ ''_'' @ str_nat k @ ''.'' @ e)
               \<and> (\<forall>j. 1 \<le> j \<and> j < k \<longrightarrow>
                      path_exists fs (stem @ ''_'' @ str_nat j @ ''.'' @ e))"
      unfolding d c by blast
  qed
  have f: "\<not> path_exists fs (destination fs (stem @ ''.'' @ e0) ?ext)"
    using a b by (cases "path_exists fs ?base") auto
  have s: "started (convert_file fs self (stem @ ''.'' @ e0) ?ext)
           = started self
             @ [\<lparr>input_file = stem @ ''.'' @ e0,
                 output_file = destination fs (stem @ ''.'' @ e0) ?ext,
                 ffmpeg_path = window_ffmpeg_path self\<rparr>]"
    by (simp add: convert_file_def Let_def)
  from a b f s once twice show ?thesis by blast
qed

theorem destination_free_name_witness:
  "CHR ''.'' \<notin> set ''mp4'' \<and> CHR ''.'' \<notin> set ''mkv''
   \<and> path_exists [''foo.mp4'', ''foo.mkv''] ''foo.mkv''
   \<and> destination [''foo.mp4'', ''foo.mkv''] ''foo.mp4'' ''.mkv'' = ''foo_1.mkv''
   \<and> \<not> path_exists [''foo.mp4'', ''foo.mkv'']
         (destination [''foo.mp4'', ''foo.mkv''] ''foo.mp4'' ''.mkv'')
   \<and> map output_file (started (convert_file [''foo.mp4'', ''foo.mkv''] idle_window ''foo.mp4'' ''.mkv''))
       = [''foo_1.mkv'']"
proof -
  have a: "CHR ''.'' \<notin> set ''mp4''" and b: "CHR ''.'' \<notin> set ''mkv''" by simp_all
  note th = destination_free_name[OF a b, of "[''foo.mp4'', ''foo.mkv'']" "''foo''" idle_window]
  have e: "path_exists [''foo.mp4'', ''foo.mkv''] ''foo.mkv''" by (simp add: path_exists_def)
  note rest = th[THEN conjunct2, THEN conjunct2]
  from rest[THEN conjunct2, THEN conjunct2, THEN conjunct1]
  have d: "destination [''foo.mp4'', ''foo.mkv''] ''foo.mp4'' ''.mkv'' = ''foo_1.mkv''" .
  from rest[THEN conjunct1] have f: "\<not> path_exists [''foo.mp4'', ''foo.mkv'']
         (destination [''foo.mp4'', ''foo.mkv''] ''foo.mp4'' ''.mkv'')"
    by simp
  from rest[THEN conjunct2, THEN conjunct1] have s: "map output_file
         (started (convert_file [''foo.mp4'', ''foo.mkv''] idle_window ''foo.mp4'' ''.mkv''))
       = [''foo_1.mkv'']"
    using d by (simp add: idle_window_def)
  show ?thesis using a b e d f s by simp
qed

text \<open>
  C5. When the path of the tool is \<open>None\<close>, \<open>handle_convert\<close> shows one dialog and changes
  nothing else: no thread is created or started, no progress frame is made and the queue
  is as it was. With an output and an input extension selected, which is what a submission
  is, the dialog is the error that FFmpeg is not available; without a selection the
  window asks for that first.
\<close>

theorem tool_unavailable:
  assumes "window_ffmpeg_path self = None"
  shows "\<exists>d. handle_convert fs self = self\<lparr>dialogs := dialogs self @ [d]\<rparr>
           \<and> (currentText (output_combo_box self) \<noteq> []
                \<and> currentText (input_combo_box self) \<noteq> []
              \<longrightarrow> d = critical ''FFmpeg Error'' ''FFmpeg is not available, conversion failed.'')
           \<and> started (handle_convert fs self) = started self
           \<and> converter_threads (handle_convert fs self) = converter_threads self
           \<and> progress_frames (handle_convert fs self) = progress_frames self
           \<and> list_widget (handle_convert fs self) = list_widget self"
  using assms by (auto simp: handle_convert_def Let_def show_dialog_def)

theorem tool_unavailable_witness:
  "window_ffmpeg_path ((queued [''clip.mp4''])\<lparr>window_ffmpeg_path := None\<rparr>) = None
   \<and> currentText (output_combo_box ((queued [''clip.mp4''])\<lparr>window_ffmpeg_path := None\<rparr>)) = ''.mkv''
   \<and> currentText (input_combo_box ((queued [''clip.mp4''])\<lparr>window_ffmpeg_path := None\<rparr>)) = ''.mp4''
   \<and> dialogs (handle_convert [''clip.mp4''] ((queued [''clip.mp4''])\<lparr>window_ffmpeg_path := None\<rparr>))
       = [critical ''FFmpeg Error'' ''FFmpeg is not available, conversion failed.'']
   \<and> started (handle_convert [''clip.mp4''] ((queued [''clip.mp4''])\<lparr>window_ffmpeg_path := None\<rparr>))
       = []
   \<and> list_widget (handle_convert [''clip.mp4''] ((queued [''clip.mp4''])\<lparr>window_ffmpeg_path := None\<rparr>))
       = [''clip.mp4'']"
proof -
  let ?w = "(queued [''clip.mp4''])\<lparr>window_ffmpeg_path := None\<rparr>"
  have n: "window_ffmpeg_path ?w = None" by simp
  have o: "currentText (output_combo_box ?w) = ''.mkv''"
    by (simp add: queued_def currentText_def)
  have i: "currentText (input_combo_box ?w) = ''.mp4''"
    by (simp add: queued_def currentText_def)
  from tool_unavailable[OF n, of "[''clip.mp4'']"] obtain d where
    h: "handle_convert [''clip.mp4''] ?w = ?w\<lparr>dialogs := dialogs ?w @ [d]\<rparr>"
    and c: "currentText (output_combo_box ?w) \<noteq> [] \<and> currentText (input_combo_box ?w) \<noteq> []
              \<longrightarrow> d = critical ''FFmpeg Error'' ''FFmpeg is not available, conversion failed.''"
    by blast
  from c o i have d: "d = critical ''FFmpeg Error'' ''FFmpeg is not available, conversion failed.''"
    by simp
  have "dialogs (handle_convert [''clip.mp4''] ?w)
       = [critical ''FFmpeg Error'' ''FFmpeg is not available, conversion failed.'']"
    unfolding h d by (simp add: queued_def idle_window_def)
  moreover have "started (handle_convert [''clip.mp4''] ?w) = []"
    unfolding h by (simp add: queued_def idle_window_def)
  moreover have "list_widget (handle_convert [''clip.mp4''] ?w) = [''clip.mp4'']"
    unfolding h by (simp add: queued_def idle_window_def)
  ultimately show ?thesis using n o i by simp
qed

end
